theory Spec2Isabelle
  imports Main "HOL-Library.Word" "HOL-Library.Signed_Division" "HOL-Library.Monad_Syntax"
begin

section \<open>Common C vocabulary\<close>

text \<open>
  The repository holds three independent C programs, one per replacement policy:
  \<^verbatim>\<open>LRU-CLOCK.c\<close> (Clock), \<^verbatim>\<open>part_000\<close> (LFU) and \<^verbatim>\<open>part_001\<close> (LRU).
  Each defines its own \<^verbatim>\<open>Frame\<close>, \<^verbatim>\<open>FrameList\<close>, \<^verbatim>\<open>findFrame\<close> and \<^verbatim>\<open>loadPage\<close>;
  the models carry the policy as a prefix or suffix of the source name.

  A C \<^verbatim>\<open>int\<close> stored in a struct is a 32-bit word, read as two's complement by \<open>sint\<close>.
\<close>

type_synonym c_int = "32 word"

abbreviation (input) NUM_FRAMES :: "'a::numeral" where
  "NUM_FRAMES \<equiv> 4"

text \<open>The C remainder \<^verbatim>\<open>a % b\<close> on \<^verbatim>\<open>int\<close> truncates towards zero.\<close>

definition c_mod :: "c_int \<Rightarrow> c_int \<Rightarrow> c_int" where
  "c_mod a b = word_of_int (sint a smod sint b)"


section \<open>Clock (LRU-CLOCK.c)\<close>

subsection \<open>Data\<close>

record clock_Frame =
  page_c :: c_int
  valid_c :: bool
  reference :: bool

record clock_FrameList =
  numFrames_c :: c_int
  frames :: "clock_Frame list"
  clockHand :: c_int

text \<open>
  \<^verbatim>\<open>createFrameList\<close>: the counter and the hand are 0 and every slot is empty.
  The \<^verbatim>\<open>malloc\<close> of the single \<^verbatim>\<open>FrameList\<close> is taken to succeed.
\<close>

definition clock_createFrameList :: clock_FrameList where
  "clock_createFrameList =
     \<lparr>numFrames_c = 0,
      frames = replicate NUM_FRAMES \<lparr>page_c = - 1, valid_c = False, reference = False\<rparr>,
      clockHand = 0\<rparr>"

subsection \<open>findFrame\<close>

text \<open>
  The \<^verbatim>\<open>for\<close> loop over \<^verbatim>\<open>i = 0 .. NUM_FRAMES - 1\<close>; it compares the \<^verbatim>\<open>page\<close> field of
  every slot, occupied or not, and returns the first matching index, or \<open>-1\<close>.
\<close>

function clock_findFrame_from :: "nat \<Rightarrow> clock_FrameList \<Rightarrow> c_int \<Rightarrow> int" where
  "clock_findFrame_from i frameList pg =
     (if i < NUM_FRAMES then
        (if page_c (frames frameList ! i) = pg then int i
         else clock_findFrame_from (i + 1) frameList pg)
      else - 1)"
  by pat_completeness auto
termination
  by (relation "measure (\<lambda>(i, frameList, pg). NUM_FRAMES - i)") auto

declare clock_findFrame_from.simps [simp del]

definition clock_findFrame :: "clock_FrameList \<Rightarrow> c_int \<Rightarrow> int" where
  "clock_findFrame frameList pg = clock_findFrame_from 0 frameList pg"

subsection \<open>loadPage\<close>

text \<open>
  The array \<^verbatim>\<open>frames\<close> has exactly \<^verbatim>\<open>NUM_FRAMES\<close> elements and \<^verbatim>\<open>clockHand\<close> indexes it.
  An index outside the array is undefined behaviour in C; the model returns \<open>None\<close> there.
\<close>

definition hand_in_bounds :: "clock_FrameList \<Rightarrow> bool" where
  "hand_in_bounds frameList \<longleftrightarrow>
     length (frames frameList) = NUM_FRAMES \<and>
     0 \<le> sint (clockHand frameList) \<and> sint (clockHand frameList) < NUM_FRAMES"

definition claim_slot :: "clock_FrameList \<Rightarrow> c_int \<Rightarrow> clock_FrameList" where
  "claim_slot frameList pg =
     (let h = nat (sint (clockHand frameList)) in
      frameList
        \<lparr>frames := (frames frameList)
           [h := (frames frameList ! h)\<lparr>page_c := pg, valid_c := True, reference := True\<rparr>],
         clockHand := c_mod (clockHand frameList + 1) NUM_FRAMES\<rparr>)"

definition clear_slot :: "clock_FrameList \<Rightarrow> clock_FrameList" where
  "clear_slot frameList =
     (let h = nat (sint (clockHand frameList)) in
      frameList
        \<lparr>frames := (frames frameList)[h := (frames frameList ! h)\<lparr>reference := False\<rparr>],
         clockHand := c_mod (clockHand frameList + 1) NUM_FRAMES\<rparr>)"

definition slot_free :: "clock_FrameList \<Rightarrow> bool" where
  "slot_free frameList \<longleftrightarrow>
     \<not> valid_c (frames frameList ! nat (sint (clockHand frameList))) \<or>
     \<not> reference (frames frameList ! nat (sint (clockHand frameList)))"

text \<open>
  The \<^verbatim>\<open>while (true)\<close> loop of the miss branch. The last argument counts the iterations
  begun so far; it is returned with the final state and has no influence on it.
\<close>

lemma filter_update_less:
  "i < length xs \<Longrightarrow> P (xs ! i) \<Longrightarrow> \<not> P y \<Longrightarrow>
   length (filter P (xs[i := y])) < length (filter P xs)"
proof (induction xs arbitrary: i)
  case Nil
  then show ?case by simp
next
  case (Cons x xs)
  show ?case
  proof (cases i)
    case 0
    with Cons.prems show ?thesis by simp
  next
    case (Suc j)
    with Cons.prems have "length (filter P (xs[j := y])) < length (filter P xs)"
      by (intro Cons.IH) simp_all
    with Suc show ?thesis by simp
  qed
qed

function clock_scan :: "clock_FrameList \<Rightarrow> c_int \<Rightarrow> nat \<Rightarrow> (clock_FrameList \<times> nat) option" where
  "clock_scan frameList pg k =
     (if \<not> hand_in_bounds frameList then None
      else if slot_free frameList then Some (claim_slot frameList pg, k + 1)
      else clock_scan (clear_slot frameList) pg (k + 1))"
  by pat_completeness auto
termination
proof (relation "measure (\<lambda>(frameList, pg, k).
          length (filter (\<lambda>F. valid_c F \<and> reference F) (frames frameList)))")
  show "wf (measure (\<lambda>(frameList, pg, k).
          length (filter (\<lambda>F. valid_c F \<and> reference F) (frames frameList))))"
    by simp
next
  fix frameList :: clock_FrameList and pg :: c_int and k :: nat
  assume b: "\<not> \<not> hand_in_bounds frameList" and f: "\<not> slot_free frameList"
  let ?h = "nat (sint (clockHand frameList))"
  from b have "?h < length (frames frameList)"
    by (simp add: hand_in_bounds_def nat_less_iff)
  moreover from f have "valid_c (frames frameList ! ?h) \<and> reference (frames frameList ! ?h)"
    by (simp add: slot_free_def)
  ultimately have "length (filter (\<lambda>F. valid_c F \<and> reference F)
        ((frames frameList)[?h := (frames frameList ! ?h)\<lparr>reference := False\<rparr>]))
      < length (filter (\<lambda>F. valid_c F \<and> reference F) (frames frameList))"
    by (intro filter_update_less) simp_all
  then show "((clear_slot frameList, pg, k + 1), (frameList, pg, k))
      \<in> measure (\<lambda>(frameList, pg, k).
          length (filter (\<lambda>F. valid_c F \<and> reference F) (frames frameList)))"
    by (simp add: clear_slot_def Let_def)
qed

declare clock_scan.simps [simp del]

text \<open>
  \<^verbatim>\<open>loadPage\<close>: a hit sets the reference bit of the slot found; a miss runs the scan.
\<close>

definition clock_loadPage :: "clock_FrameList \<Rightarrow> c_int \<Rightarrow> clock_FrameList option" where
  "clock_loadPage frameList pg =
     (if length (frames frameList) \<noteq> NUM_FRAMES then None
      else
        let frameIndex = clock_findFrame frameList pg in
        if frameIndex \<noteq> - 1 then
          Some (frameList
            \<lparr>frames := (frames frameList)
               [nat frameIndex := (frames frameList ! nat frameIndex)\<lparr>reference := True\<rparr>]\<rparr>)
        else map_option fst (clock_scan frameList pg 0))"

text \<open>A sequence of calls, first page first; it stops at the first call that does not return.\<close>

fun clock_run :: "clock_FrameList \<Rightarrow> c_int list \<Rightarrow> clock_FrameList option" where
  "clock_run frameList [] = Some frameList"
| "clock_run frameList (pg # pgs) =
     (case clock_loadPage frameList pg of
        None \<Rightarrow> None
      | Some frameList' \<Rightarrow> clock_run frameList' pgs)"

text \<open>The number of occupied slots, as \<^verbatim>\<open>printFrameList\<close> would show them.\<close>

definition clock_occupied :: "clock_FrameList \<Rightarrow> nat" where
  "clock_occupied frameList = length (filter valid_c (frames frameList))"

text \<open>The pages of the occupied slots, in index order.\<close>

definition clock_resident :: "clock_FrameList \<Rightarrow> c_int list" where
  "clock_resident frameList = map page_c (filter valid_c (frames frameList))"

section \<open>Linked frames (part_001, LRU, and part_000, LFU)\<close>

subsection \<open>Data\<close>

text \<open>
  Both programs keep the frames in a doubly linked list of heap cells. A pointer is
  \<open>None\<close> for \<^verbatim>\<open>NULL\<close> or \<open>Some a\<close> for the address \<open>a\<close> of a cell. The LFU frame is
  the LRU frame with one more field, \<^verbatim>\<open>frequency\<close>.
\<close>

type_synonym ptr = "nat option"

record Frame =
  page :: c_int
  valid :: bool
  prev :: ptr
  "next" :: ptr

record lfu_Frame = Frame +
  frequency :: c_int

record FrameList =
  numFrames :: c_int
  head :: ptr
  tail :: ptr

text \<open>
  The program state is the one \<^verbatim>\<open>FrameList\<close> together with the heap it points into:
  \<open>heap\<close> holds the cells that are allocated and not yet freed, \<open>brk\<close> is the address the
  next \<^verbatim>\<open>malloc\<close> returns. \<^verbatim>\<open>malloc\<close> is taken to succeed and never to return an address it
  returned before. Reading or writing through a pointer to no cell is undefined behaviour
  in C; every operation returns \<open>None\<close> there, as it does when a loop does not end.
\<close>

record 'f memory = FrameList +
  heap :: "nat \<rightharpoonup> 'f"
  brk :: nat

type_synonym 'a state = "'a Frame_scheme memory"

type_synonym lru_state = "unit state"

type_synonym lfu_state = "unit lfu_Frame_ext state"

definition store :: "'a state \<Rightarrow> nat \<Rightarrow> ('a Frame_scheme \<Rightarrow> 'a Frame_scheme) \<Rightarrow> 'a state option" where
  "store s a f =
     (case heap s a of None \<Rightarrow> None | Some F \<Rightarrow> Some (s\<lparr>heap := (heap s)(a \<mapsto> f F)\<rparr>))"

definition free :: "'a state \<Rightarrow> nat \<Rightarrow> 'a state option" where
  "free s a =
     (case heap s a of None \<Rightarrow> None | Some F \<Rightarrow> Some (s\<lparr>heap := (heap s)(a := None)\<rparr>))"

subsection \<open>The functions the two programs share\<close>

text \<open>
  \<^verbatim>\<open>createFrameList\<close>, \<^verbatim>\<open>insertFrame\<close>, \<^verbatim>\<open>removeFrame\<close> and \<^verbatim>\<open>findFrame\<close> are the same
  text in both files. Each C statement reads the heap as the statement before left it.
\<close>

definition lru_createFrameList :: lru_state where
  "lru_createFrameList =
     \<lparr>numFrames = 0, head = None, tail = None, heap = Map.empty, brk = 0\<rparr>"

definition lfu_createFrameList :: lfu_state where
  "lfu_createFrameList =
     \<lparr>numFrames = 0, head = None, tail = None, heap = Map.empty, brk = 0\<rparr>"

definition insertFrame :: "'a state \<Rightarrow> nat \<Rightarrow> 'a state option" where
  "insertFrame s frame =
     do {
       s1 \<leftarrow> (case head s of
                None \<Rightarrow> Some (s\<lparr>head := Some frame, tail := Some frame\<rparr>)
              | Some h \<Rightarrow> do {
                  s1 \<leftarrow> store s frame (\<lambda>F. F\<lparr>next := head s\<rparr>);
                  s2 \<leftarrow> store s1 h (\<lambda>H. H\<lparr>prev := Some frame\<rparr>);
                  Some (s2\<lparr>head := Some frame\<rparr>)
                });
       Some (s1\<lparr>numFrames := numFrames s1 + 1\<rparr>)
     }"

definition removeFrame :: "'a state \<Rightarrow> nat \<Rightarrow> 'a state option" where
  "removeFrame s frame =
     do {
       F \<leftarrow> heap s frame;
       s1 \<leftarrow> (case prev F of
                Some p \<Rightarrow> store s p (\<lambda>P. P\<lparr>next := next F\<rparr>)
              | None \<Rightarrow> Some (s\<lparr>head := next F\<rparr>));
       F1 \<leftarrow> heap s1 frame;
       s2 \<leftarrow> (case next F1 of
                Some n \<Rightarrow> store s1 n (\<lambda>N. N\<lparr>prev := prev F1\<rparr>)
              | None \<Rightarrow> Some (s1\<lparr>tail := prev F1\<rparr>));
       free (s2\<lparr>numFrames := numFrames s2 - 1\<rparr>) frame
     }"

text \<open>The \<^verbatim>\<open>while (current != NULL)\<close> loop of \<^verbatim>\<open>findFrame\<close>.\<close>

partial_function (option) findFrame_from ::
  "(nat \<rightharpoonup> 'a Frame_scheme) \<Rightarrow> ptr \<Rightarrow> c_int \<Rightarrow> ptr option" where
  "findFrame_from h current pg =
     (case current of
        None \<Rightarrow> Some None
      | Some c \<Rightarrow>
          (case h c of
             None \<Rightarrow> None
           | Some C \<Rightarrow> if page C = pg then Some (Some c) else findFrame_from h (next C) pg))"

declare findFrame_from.simps [code]

definition findFrame :: "'a state \<Rightarrow> c_int \<Rightarrow> ptr option" where
  "findFrame s pg = findFrame_from (heap s) (head s) pg"

text \<open>
  \<^verbatim>\<open>printFrameList\<close> walks the list from the head and prints one line per frame. The
  model returns the frames it visits, in that order.
\<close>

partial_function (option) frames_from ::
  "(nat \<rightharpoonup> 'a Frame_scheme) \<Rightarrow> ptr \<Rightarrow> 'a Frame_scheme list option" where
  "frames_from h current =
     (case current of
        None \<Rightarrow> Some []
      | Some c \<Rightarrow>
          (case h c of
             None \<Rightarrow> None
           | Some C \<Rightarrow> do { rest \<leftarrow> frames_from h (next C); Some (C # rest) }))"

declare frames_from.simps [code]

definition printFrameList :: "'a state \<Rightarrow> 'a Frame_scheme list option" where
  "printFrameList s = frames_from (heap s) (head s)"

subsection \<open>LRU (part_001)\<close>

definition lru_createFrame :: "lru_state \<Rightarrow> nat \<times> lru_state" where
  "lru_createFrame s =
     (brk s,
      s\<lparr>heap := (heap s)(brk s \<mapsto> \<lparr>page = - 1, valid = False, prev = None, next = None\<rparr>),
        brk := brk s + 1\<rparr>)"

definition moveToHead :: "'a state \<Rightarrow> nat \<Rightarrow> 'a state option" where
  "moveToHead s frame =
     (if head s = Some frame then Some s
      else do {
        F \<leftarrow> heap s frame;
        s1 \<leftarrow> (case prev F of
                 None \<Rightarrow> Some s
               | Some p \<Rightarrow> store s p (\<lambda>P. P\<lparr>next := next F\<rparr>));
        F1 \<leftarrow> heap s1 frame;
        s2 \<leftarrow> (case next F1 of
                 None \<Rightarrow> Some s1
               | Some n \<Rightarrow> store s1 n (\<lambda>N. N\<lparr>prev := prev F1\<rparr>));
        F2 \<leftarrow> heap s2 frame;
        s3 \<leftarrow> Some (if tail s2 = Some frame then s2\<lparr>tail := prev F2\<rparr> else s2);
        s4 \<leftarrow> store s3 frame (\<lambda>F. F\<lparr>next := head s3\<rparr>);
        s5 \<leftarrow> store s4 frame (\<lambda>F. F\<lparr>prev := None\<rparr>);
        s6 \<leftarrow> (case head s5 of
                 None \<Rightarrow> Some s5
               | Some h \<Rightarrow> store s5 h (\<lambda>H. H\<lparr>prev := Some frame\<rparr>));
        s7 \<leftarrow> Some (s6\<lparr>head := Some frame\<rparr>);
        Some (if tail s7 = None then s7\<lparr>tail := Some frame\<rparr> else s7)
      })"

definition lru_loadPage :: "lru_state \<Rightarrow> c_int \<Rightarrow> lru_state option" where
  "lru_loadPage s pg =
     do {
       found \<leftarrow> findFrame s pg;
       case found of
         Some frame \<Rightarrow> moveToHead s frame
       | None \<Rightarrow> do {
           (frame, s1) \<leftarrow> Some (lru_createFrame s);
           s2 \<leftarrow> store s1 frame (\<lambda>F. F\<lparr>page := pg\<rparr>);
           s3 \<leftarrow> store s2 frame (\<lambda>F. F\<lparr>valid := True\<rparr>);
           s4 \<leftarrow> (if numFrames s3 = NUM_FRAMES then
                    (case tail s3 of
                       None \<Rightarrow> None
                     | Some lruFrame \<Rightarrow> removeFrame s3 lruFrame)
                  else Some s3);
           insertFrame s4 frame
         }
     }"

fun lru_run :: "lru_state \<Rightarrow> c_int list \<Rightarrow> lru_state option" where
  "lru_run s [] = Some s"
| "lru_run s (pg # pgs) =
     (case lru_loadPage s pg of None \<Rightarrow> None | Some s' \<Rightarrow> lru_run s' pgs)"

text \<open>What \<^verbatim>\<open>printFrameList\<close> shows of each frame: the page and the occupancy.\<close>

definition lru_snapshot :: "lru_state \<Rightarrow> (c_int \<times> bool) list option" where
  "lru_snapshot s = map_option (map (\<lambda>F. (page F, valid F))) (printFrameList s)"

subsection \<open>LFU (part_000)\<close>

definition lfu_createFrame :: "lfu_state \<Rightarrow> nat \<times> lfu_state" where
  "lfu_createFrame s =
     (brk s,
      s\<lparr>heap := (heap s)(brk s \<mapsto>
           \<lparr>page = - 1, valid = False, prev = None, next = None, frequency = 0\<rparr>),
        brk := brk s + 1\<rparr>)"

text \<open>
  The victim scan of \<^verbatim>\<open>loadPage\<close>: \<^verbatim>\<open>lfuFrame\<close> and \<^verbatim>\<open>current\<close> both start at the head;
  \<^verbatim>\<open>lfuFrame\<close> moves to \<^verbatim>\<open>current\<close> when the frequency there is strictly smaller, as
  signed integers.
\<close>

partial_function (option) lfu_scan ::
  "(nat \<rightharpoonup> lfu_Frame) \<Rightarrow> ptr \<Rightarrow> ptr \<Rightarrow> ptr option" where
  "lfu_scan h lfuFrame current =
     (case current of
        None \<Rightarrow> Some lfuFrame
      | Some c \<Rightarrow>
          do {
            C \<leftarrow> h c;
            l \<leftarrow> lfuFrame;
            L \<leftarrow> h l;
            lfu_scan h (if sint (frequency C) < sint (frequency L) then Some c else lfuFrame)
              (next C)
          })"

declare lfu_scan.simps [code]

text \<open>
  A hit increments the counter (\<^verbatim>\<open>frequency++\<close>; beyond \<^verbatim>\<open>INT_MAX\<close> the C is undefined,
  the model wraps around as the hardware does).
\<close>

definition lfu_loadPage :: "lfu_state \<Rightarrow> c_int \<Rightarrow> lfu_state option" where
  "lfu_loadPage s pg =
     do {
       found \<leftarrow> findFrame s pg;
       case found of
         Some frame \<Rightarrow> store s frame (\<lambda>F. F\<lparr>frequency := frequency F + 1\<rparr>)
       | None \<Rightarrow> do {
           (frame, s1) \<leftarrow> Some (lfu_createFrame s);
           s2 \<leftarrow> store s1 frame (\<lambda>F. F\<lparr>page := pg\<rparr>);
           s3 \<leftarrow> store s2 frame (\<lambda>F. F\<lparr>valid := True\<rparr>);
           s4 \<leftarrow> store s3 frame (\<lambda>F. F\<lparr>frequency := 1\<rparr>);
           s5 \<leftarrow> (if numFrames s4 = NUM_FRAMES then
                    do {
                      victim \<leftarrow> lfu_scan (heap s4) (head s4) (head s4);
                      lfuFrame \<leftarrow> victim;
                      removeFrame s4 lfuFrame
                    }
                  else Some s4);
           insertFrame s5 frame
         }
     }"

fun lfu_run :: "lfu_state \<Rightarrow> c_int list \<Rightarrow> lfu_state option" where
  "lfu_run s [] = Some s"
| "lfu_run s (pg # pgs) =
     (case lfu_loadPage s pg of None \<Rightarrow> None | Some s' \<Rightarrow> lfu_run s' pgs)"

text \<open>What \<^verbatim>\<open>printFrameList\<close> shows of each frame: page, frequency and occupancy.\<close>

definition lfu_snapshot :: "lfu_state \<Rightarrow> (c_int \<times> c_int \<times> bool) list option" where
  "lfu_snapshot s =
     map_option (map (\<lambda>F. (page F, frequency F, valid F))) (printFrameList s)"


section \<open>Clock: proofs\<close>

subsection \<open>Facts about the hand\<close>

lemma hand_cases:
  fixes h :: c_int
  assumes "0 \<le> sint h" "sint h < 4"
  shows "h = 0 \<or> h = 1 \<or> h = 2 \<or> h = 3"
proof -
  from assms have "sint h = 0 \<or> sint h = 1 \<or> sint h = 2 \<or> sint h = 3"
    by arith
  moreover have "h = word_of_int (sint h)"
    by simp
  ultimately show ?thesis
    by (metis word_of_int_0 word_of_int_1 word_of_int_numeral)
qed

lemma hand_advance:
  fixes h :: c_int
  assumes "0 \<le> sint h" "sint h < 4"
  shows "0 \<le> sint (c_mod (h + 1) NUM_FRAMES) \<and> sint (c_mod (h + 1) NUM_FRAMES) < 4"
  using hand_cases [OF assms] by (auto simp: c_mod_def signed_modulo_int_def)

lemma hand_in_bounds_claim:
  "hand_in_bounds s \<Longrightarrow> hand_in_bounds (claim_slot s pg)"
  by (simp add: hand_in_bounds_def claim_slot_def Let_def hand_advance)

lemma hand_in_bounds_clear:
  "hand_in_bounds s \<Longrightarrow> hand_in_bounds (clear_slot s)"
  by (simp add: hand_in_bounds_def clear_slot_def Let_def hand_advance)

definition ref_count :: "clock_FrameList \<Rightarrow> nat" where
  "ref_count s = length (filter (\<lambda>F. valid_c F \<and> reference F) (frames s))"

lemma ref_count_le: "ref_count s \<le> length (frames s)"
  by (simp add: ref_count_def)

lemma ref_count_clear:
  "hand_in_bounds s \<Longrightarrow> \<not> slot_free s \<Longrightarrow> ref_count (clear_slot s) < ref_count s"
  unfolding ref_count_def clear_slot_def Let_def
  by (simp, intro filter_update_less) (auto simp: hand_in_bounds_def slot_free_def nat_less_iff)

lemma map_update_same: "(map f xs)[i := f (xs ! i)] = map f xs"
  by (induction xs arbitrary: i) (auto split: nat.splits)

lemma clear_slot_fields:
  "map page_c (frames (clear_slot s)) = map page_c (frames s)"
  "map valid_c (frames (clear_slot s)) = map valid_c (frames s)"
  "numFrames_c (clear_slot s) = numFrames_c s"
  by (simp_all add: clear_slot_def Let_def map_update map_update_same)

lemma claim_slot_fields:
  "map page_c (frames (claim_slot s pg)) = (map page_c (frames s))[nat (sint (clockHand s)) := pg]"
  "map valid_c (frames (claim_slot s pg)) = (map valid_c (frames s))[nat (sint (clockHand s)) := True]"
  "numFrames_c (claim_slot s pg) = numFrames_c s"
  by (simp_all add: claim_slot_def Let_def map_update)

lemma clock_scan_result:
  "hand_in_bounds s \<Longrightarrow>
   \<exists>s' k' h. clock_scan s pg k = Some (s', k') \<and> h < NUM_FRAMES \<and>
     map page_c (frames s') = (map page_c (frames s))[h := pg] \<and>
     map valid_c (frames s') = (map valid_c (frames s))[h := True] \<and>
     numFrames_c s' = numFrames_c s \<and> hand_in_bounds s' \<and>
     k < k' \<and> k' \<le> k + ref_count s + 1"
proof (induction s pg k rule: clock_scan.induct)
  case (1 s pg k)
  show ?case
  proof (cases "slot_free s")
    case True
    have "nat (sint (clockHand s)) < NUM_FRAMES"
      using "1.prems" by (simp add: hand_in_bounds_def nat_less_iff)
    with True "1.prems" show ?thesis
      by (subst clock_scan.simps) (auto simp: claim_slot_fields hand_in_bounds_claim)
  next
    case False
    from "1.prems" have b: "hand_in_bounds (clear_slot s)"
      by (rule hand_in_bounds_clear)
    from "1.IH" [OF _ False b] "1.prems"
    obtain s' k' h where r: "clock_scan (clear_slot s) pg (k + 1) = Some (s', k')"
      "h < NUM_FRAMES"
      "map page_c (frames s') = (map page_c (frames (clear_slot s)))[h := pg]"
      "map valid_c (frames s') = (map valid_c (frames (clear_slot s)))[h := True]"
      "numFrames_c s' = numFrames_c (clear_slot s)" "hand_in_bounds s'"
      "k' \<le> k + 1 + ref_count (clear_slot s) + 1" "k + 1 < k'"
      by auto
    from ref_count_clear [OF "1.prems" False] r(7) have "k' \<le> k + ref_count s + 1"
      by simp
    with r False "1.prems" show ?thesis
      by (subst clock_scan.simps) (auto simp: clear_slot_fields)
  qed
qed

subsection \<open>findFrame returns the first slot holding the page\<close>

lemma clock_findFrame_from_cases:
  "(clock_findFrame_from i s pg = - 1 \<and>
      (\<forall>j. i \<le> j \<and> j < NUM_FRAMES \<longrightarrow> page_c (frames s ! j) \<noteq> pg)) \<or>
   (\<exists>r. clock_findFrame_from i s pg = int r \<and> i \<le> r \<and> r < NUM_FRAMES \<and>
      page_c (frames s ! r) = pg \<and>
      (\<forall>j. i \<le> j \<and> j < r \<longrightarrow> page_c (frames s ! j) \<noteq> pg))"
proof (induction i s pg rule: clock_findFrame_from.induct)
  case (1 i s pg)
  show ?case
  proof (cases "i < NUM_FRAMES")
    case False
    then have "clock_findFrame_from i s pg = - 1"
      by (subst clock_findFrame_from.simps) simp
    with False show ?thesis by auto
  next
    case lt: True
    show ?thesis
    proof (cases "page_c (frames s ! i) = pg")
      case True
      with lt have "clock_findFrame_from i s pg = int i"
        by (subst clock_findFrame_from.simps) simp
      with lt True show ?thesis by auto
    next
      case False
      with lt have e: "clock_findFrame_from i s pg = clock_findFrame_from (i + 1) s pg"
        by (subst clock_findFrame_from.simps) simp
      have ext: "page_c (frames s ! j) \<noteq> pg"
        if "i \<le> j" "j < n" "\<forall>j. i + 1 \<le> j \<and> j < n \<longrightarrow> page_c (frames s ! j) \<noteq> pg" for j n
        using that False by (cases "j = i") auto
      from "1.IH" [OF lt False] show ?thesis
      proof (elim disjE conjE exE)
        assume m: "clock_findFrame_from (i + 1) s pg = - 1"
          "\<forall>j. i + 1 \<le> j \<and> j < NUM_FRAMES \<longrightarrow> page_c (frames s ! j) \<noteq> pg"
        have "\<forall>j. i \<le> j \<and> j < NUM_FRAMES \<longrightarrow> page_c (frames s ! j) \<noteq> pg"
          using ext m(2) by blast
        with e m show ?thesis by simp
      next
        fix r
        assume r: "clock_findFrame_from (i + 1) s pg = int r" "i + 1 \<le> r" "r < NUM_FRAMES"
          "page_c (frames s ! r) = pg"
          "\<forall>j. i + 1 \<le> j \<and> j < r \<longrightarrow> page_c (frames s ! j) \<noteq> pg"
        have "\<forall>j. i \<le> j \<and> j < r \<longrightarrow> page_c (frames s ! j) \<noteq> pg"
          using ext r(5) by blast
        with e r show ?thesis by simp
      qed
    qed
  qed
qed

lemma clock_findFrame_miss:
  "clock_findFrame s pg = - 1 \<Longrightarrow> j < NUM_FRAMES \<Longrightarrow> page_c (frames s ! j) \<noteq> pg"
  using clock_findFrame_from_cases [of 0 s pg] by (auto simp: clock_findFrame_def)

lemma clock_findFrame_hit:
  "clock_findFrame s pg \<noteq> - 1 \<Longrightarrow>
   \<exists>r. clock_findFrame s pg = int r \<and> r < NUM_FRAMES \<and> page_c (frames s ! r) = pg \<and>
     (\<forall>j<r. page_c (frames s ! j) \<noteq> pg)"
  using clock_findFrame_from_cases [of 0 s pg] by (auto simp: clock_findFrame_def)


subsection \<open>The invariant of the reachable Clock states\<close>

text \<open>
  The page of an occupied slot is held by no other slot, the hand points into the array,
  and the counter is 0.
\<close>

definition clock_unique :: "clock_FrameList \<Rightarrow> bool" where
  "clock_unique s \<longleftrightarrow>
     (\<forall>i<NUM_FRAMES. \<forall>j<NUM_FRAMES.
        valid_c (frames s ! i) \<and> page_c (frames s ! i) = page_c (frames s ! j) \<longrightarrow> i = j)"

definition clock_inv :: "clock_FrameList \<Rightarrow> bool" where
  "clock_inv s \<longleftrightarrow> hand_in_bounds s \<and> numFrames_c s = 0 \<and> clock_unique s"

lemma clock_inv_init: "clock_inv clock_createFrameList"
  by (simp add: clock_inv_def hand_in_bounds_def clock_unique_def clock_createFrameList_def)

lemma nth_of_map_eq:
  "map f xs = ys \<Longrightarrow> i < length xs \<Longrightarrow> f (xs ! i) = ys ! i"
  by (metis nth_map)

lemma clock_loadPage_miss:
  assumes inv: "clock_inv s" and miss: "clock_findFrame s pg = - 1"
  shows "\<exists>s' k h. clock_scan s pg 0 = Some (s', k) \<and> clock_loadPage s pg = Some s' \<and>
     0 < k \<and> k \<le> NUM_FRAMES + 1 \<and> h < NUM_FRAMES \<and>
     map page_c (frames s') = (map page_c (frames s))[h := pg] \<and>
     map valid_c (frames s') = (map valid_c (frames s))[h := True] \<and>
     clock_inv s'"
proof -
  from inv have b: "hand_in_bounds s" and n: "numFrames_c s = 0" and u: "clock_unique s"
    by (simp_all add: clock_inv_def)
  from b have len: "length (frames s) = NUM_FRAMES"
    by (simp add: hand_in_bounds_def)
  from clock_scan_result [OF b, of pg 0]
  obtain s' k h where r: "clock_scan s pg 0 = Some (s', k)" "h < NUM_FRAMES"
      "map page_c (frames s') = (map page_c (frames s))[h := pg]"
      "map valid_c (frames s') = (map valid_c (frames s))[h := True]"
      "numFrames_c s' = numFrames_c s" "hand_in_bounds s'"
      "0 < k" "k \<le> 0 + ref_count s + 1"
    by blast
  from r(6) have len': "length (frames s') = NUM_FRAMES"
    by (simp add: hand_in_bounds_def)
  have pg': "page_c (frames s' ! i) = (if i = h then pg else page_c (frames s ! i))"
    if "i < NUM_FRAMES" for i
    using nth_of_map_eq [OF r(3), of i] that len len' by (simp add: nth_list_update)
  have vd': "valid_c (frames s' ! i) = (if i = h then True else valid_c (frames s ! i))"
    if "i < NUM_FRAMES" for i
    using nth_of_map_eq [OF r(4), of i] that len len' by (simp add: nth_list_update)
  have old: "page_c (frames s ! j) \<noteq> pg" if "j < NUM_FRAMES" for j
    using clock_findFrame_miss [OF miss that] .
  have "clock_unique s'"
    unfolding clock_unique_def
  proof (intro allI impI)
    fix i j :: nat
    assume i: "i < NUM_FRAMES" and j: "j < NUM_FRAMES"
      and e: "valid_c (frames s' ! i) \<and> page_c (frames s' ! i) = page_c (frames s' ! j)"
    show "i = j"
    proof (cases "i = h \<or> j = h")
      case True
      with e i j old show ?thesis
        by (auto simp: pg' split: if_splits)
    next
      case False
      with e i j u show ?thesis
        by (simp add: pg' vd' clock_unique_def)
    qed
  qed
  moreover from ref_count_le [of s] r(8) len have "k \<le> NUM_FRAMES + 1"
    by simp
  moreover have "clock_loadPage s pg = Some s'"
    using miss len r(1) by (simp add: clock_loadPage_def)
  ultimately show ?thesis
    using r n by (auto simp: clock_inv_def)
qed

lemma clock_loadPage_hit:
  assumes inv: "clock_inv s" and hit: "clock_findFrame s pg \<noteq> - 1"
  shows "\<exists>r. r < NUM_FRAMES \<and> page_c (frames s ! r) = pg \<and>
     (\<forall>j<r. page_c (frames s ! j) \<noteq> pg) \<and>
     clock_loadPage s pg =
       Some (s\<lparr>frames := (frames s)[r := (frames s ! r)\<lparr>reference := True\<rparr>]\<rparr>) \<and>
     clock_inv (s\<lparr>frames := (frames s)[r := (frames s ! r)\<lparr>reference := True\<rparr>]\<rparr>)"
proof -
  from inv have b: "hand_in_bounds s" and n: "numFrames_c s = 0" and u: "clock_unique s"
    by (simp_all add: clock_inv_def)
  from b have len: "length (frames s) = NUM_FRAMES"
    by (simp add: hand_in_bounds_def)
  from clock_findFrame_hit [OF hit] obtain r where
    r: "clock_findFrame s pg = int r" "r < NUM_FRAMES" "page_c (frames s ! r) = pg"
      "\<forall>j<r. page_c (frames s ! j) \<noteq> pg"
    by blast
  let ?s' = "s\<lparr>frames := (frames s)[r := (frames s ! r)\<lparr>reference := True\<rparr>]\<rparr>"
  have l: "clock_loadPage s pg = Some ?s'"
    using hit len r(1) by (simp add: clock_loadPage_def)
  let ?fs = "(frames s)[r := (frames s ! r)\<lparr>reference := True\<rparr>]"
  have same: "page_c (?fs ! i) = page_c (frames s ! i)"
      "valid_c (?fs ! i) = valid_c (frames s ! i)" if "i < NUM_FRAMES" for i
    using len that by (cases "i = r"; simp)+
  have "clock_unique ?s'"
    using u by (auto simp: clock_unique_def same)
  with b n have "clock_inv ?s'"
    by (simp add: clock_inv_def hand_in_bounds_def)
  with r l show ?thesis by blast
qed

lemma clock_loadPage_inv:
  "clock_inv s \<Longrightarrow> \<exists>s'. clock_loadPage s pg = Some s' \<and> clock_inv s'"
  using clock_loadPage_miss [of s pg] clock_loadPage_hit [of s pg]
  by (cases "clock_findFrame s pg = - 1") blast+

lemma clock_run_inv:
  "clock_inv s \<Longrightarrow> \<exists>s'. clock_run s pgs = Some s' \<and> clock_inv s'"
proof (induction pgs arbitrary: s)
  case Nil
  then show ?case by simp
next
  case (Cons pg pgs)
  from clock_loadPage_inv [OF Cons.prems, of pg]
  obtain s1 where s1: "clock_loadPage s pg = Some s1" "clock_inv s1" by blast
  from Cons.IH [OF s1(2)] s1(1) show ?case by simp
qed

lemma clock_reachable_inv:
  "\<exists>s. clock_run clock_createFrameList pgs = Some s \<and> clock_inv s"
  using clock_run_inv [OF clock_inv_init] .

lemma clock_scan_numFrames:
  "clock_scan s pg k = Some (s', k') \<Longrightarrow> numFrames_c s' = numFrames_c s"
proof -
  assume r: "clock_scan s pg k = Some (s', k')"
  then have "hand_in_bounds s"
    by (subst (asm) clock_scan.simps) (simp split: if_splits)
  from clock_scan_result [OF this, of pg k] r show ?thesis by auto
qed

subsection \<open>The scan, slot by slot\<close>

lemma hand_advance_nat:
  fixes x :: c_int
  assumes "0 \<le> sint x" "sint x < 4"
  shows "nat (sint (c_mod (x + 1) NUM_FRAMES)) = (nat (sint x) + 1) mod NUM_FRAMES"
  using hand_cases [OF assms] by (auto simp: c_mod_def signed_modulo_int_def)

lemma hand_advance_sint:
  fixes x :: c_int
  assumes "0 \<le> sint x" "sint x < 4"
  shows "sint (c_mod (x + 1) NUM_FRAMES) = int ((nat (sint x) + 1) mod NUM_FRAMES)"
  using hand_cases [OF assms] by (auto simp: c_mod_def signed_modulo_int_def)

lemma wrap_once:
  fixes a n :: nat
  shows "a < 4 \<Longrightarrow> n \<le> 3 \<Longrightarrow> (a + Suc n) mod 4 = a \<Longrightarrow> Suc n = 4"
  by presburger

lemma claimed_frame:
  "F\<lparr>page_c := pg, valid_c := True, reference := True\<rparr> =
   \<lparr>page_c = pg, valid_c = True, reference = True\<rparr>"
  by (cases F) simp

text \<open>
  What the scan does, slot by slot: it passes over \<open>j\<close> slots that are occupied and
  referenced and clears their reference bits, then claims the next slot.
\<close>

lemma clock_scan_sweep:
  "hand_in_bounds s \<Longrightarrow> clock_scan s pg k = Some (s', k') \<Longrightarrow>
   \<exists>j. k' = k + j + 1 \<and> j \<le> ref_count s \<and>
     (\<forall>i<j. valid_c (frames s ! ((nat (sint (clockHand s)) + i) mod NUM_FRAMES)) \<and>
            reference (frames s ! ((nat (sint (clockHand s)) + i) mod NUM_FRAMES))) \<and>
     (j = NUM_FRAMES \<or>
      \<not> valid_c (frames s ! ((nat (sint (clockHand s)) + j) mod NUM_FRAMES)) \<or>
      \<not> reference (frames s ! ((nat (sint (clockHand s)) + j) mod NUM_FRAMES))) \<and>
     frames s' ! ((nat (sint (clockHand s)) + j) mod NUM_FRAMES) =
       \<lparr>page_c = pg, valid_c = True, reference = True\<rparr> \<and>
     sint (clockHand s') = int ((nat (sint (clockHand s)) + j + 1) mod NUM_FRAMES) \<and>
     length (frames s') = NUM_FRAMES \<and> numFrames_c s' = numFrames_c s \<and>
     (\<forall>i<NUM_FRAMES. i \<noteq> (nat (sint (clockHand s)) + j) mod NUM_FRAMES \<longrightarrow>
        page_c (frames s' ! i) = page_c (frames s ! i) \<and>
        valid_c (frames s' ! i) = valid_c (frames s ! i) \<and>
        reference (frames s' ! i) =
          (reference (frames s ! i) \<and>
           (\<forall>i'<j. i \<noteq> (nat (sint (clockHand s)) + i') mod NUM_FRAMES)))"
proof (induction s pg k arbitrary: s' k' rule: clock_scan.induct)
  case (1 s pg k)
  let ?h0 = "nat (sint (clockHand s))"
  from "1.prems"(1) have len: "length (frames s) = NUM_FRAMES" and h0: "?h0 < NUM_FRAMES"
    and hb: "0 \<le> sint (clockHand s)" "sint (clockHand s) < 4"
    by (simp_all add: hand_in_bounds_def nat_less_iff)
  show ?case
  proof (cases "slot_free s")
    case True
    with "1.prems" have r: "s' = claim_slot s pg" "k' = k + 1"
      by (subst (asm) clock_scan.simps, simp)+
    have fr: "frames s' = (frames s)[?h0 := \<lparr>page_c = pg, valid_c = True, reference = True\<rparr>]"
      by (simp add: r claim_slot_def Let_def claimed_frame)
    have hd: "sint (clockHand s') = int ((?h0 + 1) mod NUM_FRAMES)"
      using hand_advance_sint [OF hb] by (simp add: r claim_slot_def Let_def)
    have nf: "numFrames_c s' = numFrames_c s"
      by (simp add: r claim_slot_def Let_def)
    from True have free: "\<not> valid_c (frames s ! ?h0) \<or> \<not> reference (frames s ! ?h0)"
      by (simp add: slot_free_def)
    show ?thesis
      using r(2) fr hd nf free len h0
      by (intro exI [of _ 0]) (simp add: nth_list_update)
  next
    case False
    let ?s1 = "clear_slot s"
    let ?h1 = "nat (sint (clockHand ?s1))"
    from "1.prems"(1) have b1: "hand_in_bounds ?s1"
      by (rule hand_in_bounds_clear)
    from False "1.prems" have run1: "clock_scan ?s1 pg (k + 1) = Some (s', k')"
      by (subst (asm) clock_scan.simps) simp
    have h1: "?h1 = (?h0 + 1) mod NUM_FRAMES"
      using hand_advance_nat [OF hb] by (simp add: clear_slot_def Let_def)
    have fr1: "frames ?s1 = (frames s)[?h0 := (frames s ! ?h0)\<lparr>reference := False\<rparr>]"
      by (simp add: clear_slot_def Let_def)
    have pv1: "page_c (frames ?s1 ! i) = page_c (frames s ! i)"
      "valid_c (frames ?s1 ! i) = valid_c (frames s ! i)"
      "reference (frames ?s1 ! i) = (reference (frames s ! i) \<and> i \<noteq> ?h0)"
      if "i < NUM_FRAMES" for i
      using that len by (cases "i = ?h0"; simp add: fr1)+
    from False have occ: "valid_c (frames s ! ?h0)" "reference (frames s ! ?h0)"
      by (simp_all add: slot_free_def)
    have rc: "ref_count ?s1 < ref_count s"
      using "1.prems"(1) False by (rule ref_count_clear)
    have rc4: "ref_count s \<le> NUM_FRAMES"
      using ref_count_le [of s] len by simp
    from "1.IH" [OF _ False b1 run1] "1.prems"(1)
    obtain j1 where j1: "k' = k + 1 + j1 + 1" "j1 \<le> ref_count ?s1"
      "\<forall>i<j1. valid_c (frames ?s1 ! ((?h1 + i) mod NUM_FRAMES)) \<and>
            reference (frames ?s1 ! ((?h1 + i) mod NUM_FRAMES))"
      "j1 = NUM_FRAMES \<or>
        \<not> valid_c (frames ?s1 ! ((?h1 + j1) mod NUM_FRAMES)) \<or>
        \<not> reference (frames ?s1 ! ((?h1 + j1) mod NUM_FRAMES))"
      "frames s' ! ((?h1 + j1) mod NUM_FRAMES) = \<lparr>page_c = pg, valid_c = True, reference = True\<rparr>"
      "sint (clockHand s') = int ((?h1 + j1 + 1) mod NUM_FRAMES)"
      "length (frames s') = NUM_FRAMES" "numFrames_c s' = numFrames_c ?s1"
      "\<forall>i<NUM_FRAMES. i \<noteq> (?h1 + j1) mod NUM_FRAMES \<longrightarrow>
        page_c (frames s' ! i) = page_c (frames ?s1 ! i) \<and>
        valid_c (frames s' ! i) = valid_c (frames ?s1 ! i) \<and>
        reference (frames s' ! i) =
          (reference (frames ?s1 ! i) \<and> (\<forall>i'<j1. i \<noteq> (?h1 + i') mod NUM_FRAMES))"
      by auto
    have idx: "(?h1 + i) mod NUM_FRAMES = (?h0 + Suc i) mod NUM_FRAMES" for i
      unfolding h1 by (simp add: mod_add_left_eq)
    from j1(2) rc rc4 have j13: "j1 \<le> 3" by simp
    let ?j = "Suc j1"
    have a: "k' = k + ?j + 1" using j1(1) by simp
    have b: "?j \<le> ref_count s" using j1(2) rc by simp
    have c: "\<forall>i<?j. valid_c (frames s ! ((?h0 + i) mod NUM_FRAMES)) \<and>
            reference (frames s ! ((?h0 + i) mod NUM_FRAMES))"
    proof (intro allI impI)
      fix i assume "i < ?j"
      show "valid_c (frames s ! ((?h0 + i) mod NUM_FRAMES)) \<and>
            reference (frames s ! ((?h0 + i) mod NUM_FRAMES))"
      proof (cases i)
        case 0
        with occ h0 show ?thesis by simp
      next
        case (Suc i1)
        with \<open>i < ?j\<close> have "i1 < j1" by simp
        with j1(3) have "valid_c (frames ?s1 ! ((?h1 + i1) mod NUM_FRAMES)) \<and>
            reference (frames ?s1 ! ((?h1 + i1) mod NUM_FRAMES))"
          by blast
        then show ?thesis
          unfolding idx Suc by (simp add: pv1)
      qed
    qed
    have d: "?j = NUM_FRAMES \<or>
        \<not> valid_c (frames s ! ((?h0 + ?j) mod NUM_FRAMES)) \<or>
        \<not> reference (frames s ! ((?h0 + ?j) mod NUM_FRAMES))"
    proof (cases "(?h0 + ?j) mod NUM_FRAMES = ?h0")
      case True
      with j13 h0 have "?j = NUM_FRAMES" by (intro wrap_once)
      then show ?thesis by simp
    next
      case False
      from j1(4) j13 have "\<not> valid_c (frames ?s1 ! ((?h0 + ?j) mod NUM_FRAMES)) \<or>
          \<not> reference (frames ?s1 ! ((?h0 + ?j) mod NUM_FRAMES))"
        unfolding idx by simp
      with False show ?thesis by (simp add: pv1)
    qed
    have e: "frames s' ! ((?h0 + ?j) mod NUM_FRAMES) = \<lparr>page_c = pg, valid_c = True, reference = True\<rparr>"
      using j1(5) unfolding idx .
    have f: "sint (clockHand s') = int ((?h0 + ?j + 1) mod NUM_FRAMES)"
      using j1(6) idx [of "j1 + 1"] by simp
    have g: "numFrames_c s' = numFrames_c s"
      using j1(8) by (simp add: clear_slot_def Let_def)
    have h: "\<forall>i<NUM_FRAMES. i \<noteq> (?h0 + ?j) mod NUM_FRAMES \<longrightarrow>
        page_c (frames s' ! i) = page_c (frames s ! i) \<and>
        valid_c (frames s' ! i) = valid_c (frames s ! i) \<and>
        reference (frames s' ! i) =
          (reference (frames s ! i) \<and> (\<forall>i'<?j. i \<noteq> (?h0 + i') mod NUM_FRAMES))"
    proof (intro allI impI)
      fix i :: nat assume i: "i < NUM_FRAMES" "i \<noteq> (?h0 + ?j) mod NUM_FRAMES"
      with j1(9) have "page_c (frames s' ! i) = page_c (frames ?s1 ! i) \<and>
        valid_c (frames s' ! i) = valid_c (frames ?s1 ! i) \<and>
        reference (frames s' ! i) =
          (reference (frames ?s1 ! i) \<and> (\<forall>i'<j1. i \<noteq> (?h1 + i') mod NUM_FRAMES))"
        unfolding idx by blast
      moreover have "(\<forall>i'<?j. i \<noteq> (?h0 + i') mod NUM_FRAMES) \<longleftrightarrow>
          i \<noteq> ?h0 \<and> (\<forall>i'<j1. i \<noteq> (?h1 + i') mod NUM_FRAMES)"
        unfolding idx using h0 by (simp add: All_less_Suc2)
      ultimately show "page_c (frames s' ! i) = page_c (frames s ! i) \<and>
        valid_c (frames s' ! i) = valid_c (frames s ! i) \<and>
        reference (frames s' ! i) =
          (reference (frames s ! i) \<and> (\<forall>i'<?j. i \<noteq> (?h0 + i') mod NUM_FRAMES))"
        using i(1) by (auto simp: pv1)
    qed
    from a b c d e f j1(7) g h show ?thesis
      by (intro exI [of _ ?j] conjI)
  qed
qed

section \<open>Clock: the claims\<close>

text \<open>
  C5. With capacity 4 and the hand at 0, loading pages 1, 2, 3, 4 fills the four slots in
  index order, every reference bit set, and the hand is back at 0. Loading page 5 then
  takes five iterations of the scan: four clear the reference bits of slots 0 to 3, the
  fifth reclaims slot 0. The final state is slot 0 = page 5 (referenced), slots 1 to 3 =
  pages 2, 3, 4 (not referenced), hand = 1.
\<close>

theorem clock_scenario:
  "clock_run clock_createFrameList [1, 2, 3, 4] =
     Some \<lparr>numFrames_c = 0,
       frames = [\<lparr>page_c = 1, valid_c = True, reference = True\<rparr>,
                 \<lparr>page_c = 2, valid_c = True, reference = True\<rparr>,
                 \<lparr>page_c = 3, valid_c = True, reference = True\<rparr>,
                 \<lparr>page_c = 4, valid_c = True, reference = True\<rparr>],
       clockHand = 0\<rparr> \<and>
   clock_run clock_createFrameList [1, 2, 3, 4, 5] =
     Some \<lparr>numFrames_c = 0,
       frames = [\<lparr>page_c = 5, valid_c = True, reference = True\<rparr>,
                 \<lparr>page_c = 2, valid_c = True, reference = False\<rparr>,
                 \<lparr>page_c = 3, valid_c = True, reference = False\<rparr>,
                 \<lparr>page_c = 4, valid_c = True, reference = False\<rparr>],
       clockHand = 1\<rparr> \<and>
   clock_scan
     \<lparr>numFrames_c = 0,
       frames = [\<lparr>page_c = 1, valid_c = True, reference = True\<rparr>,
                 \<lparr>page_c = 2, valid_c = True, reference = True\<rparr>,
                 \<lparr>page_c = 3, valid_c = True, reference = True\<rparr>,
                 \<lparr>page_c = 4, valid_c = True, reference = True\<rparr>],
       clockHand = 0\<rparr> 5 0 =
     Some (\<lparr>numFrames_c = 0,
       frames = [\<lparr>page_c = 5, valid_c = True, reference = True\<rparr>,
                 \<lparr>page_c = 2, valid_c = True, reference = False\<rparr>,
                 \<lparr>page_c = 3, valid_c = True, reference = False\<rparr>,
                 \<lparr>page_c = 4, valid_c = True, reference = False\<rparr>],
       clockHand = 1\<rparr>, 5)"
  by code_simp

text \<open>
  C6. In every state reached from the fresh frame table by a sequence of \<^verbatim>\<open>loadPage\<close>
  calls, a call that misses returns: its scan loop runs at least one and at most
  \<open>2 * NUM_FRAMES\<close> iterations and claims a slot. With \<open>j\<close> the number of slots it passes over,
  it runs \<open>j + 1\<close> iterations; the slots passed over, the \<open>j\<close> slots from the hand on, were
  occupied and referenced; the slot after them either was free or unreferenced, or the hand
  has gone once round the table; that slot holds the page afterwards, valid and referenced;
  the hand rests one past it; no other slot changes its page or its valid bit, and the slots
  passed over have lost their reference bits and no other slot has; the table keeps its
  length, \<^verbatim>\<open>numFrames\<close> its value, and the page is resident.
\<close>

theorem clock_miss_terminates:
  "\<exists>s. clock_run clock_createFrameList pgs = Some s \<and>
     (clock_findFrame s pg = - 1 \<longrightarrow>
        (\<exists>s' k j. clock_scan s pg 0 = Some (s', k) \<and> clock_loadPage s pg = Some s' \<and>
           0 < k \<and> k \<le> 2 * NUM_FRAMES \<and> k = j + 1 \<and>
           (\<forall>i<j. valid_c (frames s ! ((nat (sint (clockHand s)) + i) mod NUM_FRAMES)) \<and>
                  reference (frames s ! ((nat (sint (clockHand s)) + i) mod NUM_FRAMES))) \<and>
           (j = NUM_FRAMES \<or>
            \<not> valid_c (frames s ! ((nat (sint (clockHand s)) + j) mod NUM_FRAMES)) \<or>
            \<not> reference (frames s ! ((nat (sint (clockHand s)) + j) mod NUM_FRAMES))) \<and>
           frames s' ! ((nat (sint (clockHand s)) + j) mod NUM_FRAMES) =
             \<lparr>page_c = pg, valid_c = True, reference = True\<rparr> \<and>
           sint (clockHand s') = int ((nat (sint (clockHand s)) + j + 1) mod NUM_FRAMES) \<and>
           length (frames s') = NUM_FRAMES \<and> numFrames_c s' = numFrames_c s \<and>
           (\<forall>i<NUM_FRAMES. i \<noteq> (nat (sint (clockHand s)) + j) mod NUM_FRAMES \<longrightarrow>
              page_c (frames s' ! i) = page_c (frames s ! i) \<and>
              valid_c (frames s' ! i) = valid_c (frames s ! i) \<and>
              reference (frames s' ! i) =
                (reference (frames s ! i) \<and>
                 (\<forall>i'<j. i \<noteq> (nat (sint (clockHand s)) + i') mod NUM_FRAMES))) \<and>
           pg \<in> set (clock_resident s')))"
proof -
  from clock_reachable_inv [of pgs]
  obtain s where s: "clock_run clock_createFrameList pgs = Some s" "clock_inv s"
    by blast
  let ?h0 = "nat (sint (clockHand s))"
  have "\<exists>s' k j. clock_scan s pg 0 = Some (s', k) \<and> clock_loadPage s pg = Some s' \<and>
           0 < k \<and> k \<le> 2 * NUM_FRAMES \<and> k = j + 1 \<and>
           (\<forall>i<j. valid_c (frames s ! ((?h0 + i) mod NUM_FRAMES)) \<and>
                  reference (frames s ! ((?h0 + i) mod NUM_FRAMES))) \<and>
           (j = NUM_FRAMES \<or>
            \<not> valid_c (frames s ! ((?h0 + j) mod NUM_FRAMES)) \<or>
            \<not> reference (frames s ! ((?h0 + j) mod NUM_FRAMES))) \<and>
           frames s' ! ((?h0 + j) mod NUM_FRAMES) =
             \<lparr>page_c = pg, valid_c = True, reference = True\<rparr> \<and>
           sint (clockHand s') = int ((?h0 + j + 1) mod NUM_FRAMES) \<and>
           length (frames s') = NUM_FRAMES \<and> numFrames_c s' = numFrames_c s \<and>
           (\<forall>i<NUM_FRAMES. i \<noteq> (?h0 + j) mod NUM_FRAMES \<longrightarrow>
              page_c (frames s' ! i) = page_c (frames s ! i) \<and>
              valid_c (frames s' ! i) = valid_c (frames s ! i) \<and>
              reference (frames s' ! i) =
                (reference (frames s ! i) \<and> (\<forall>i'<j. i \<noteq> (?h0 + i') mod NUM_FRAMES))) \<and>
           pg \<in> set (clock_resident s')"
    if miss: "clock_findFrame s pg = - 1"
  proof -
    from s(2) have b: "hand_in_bounds s" by (simp add: clock_inv_def)
    from clock_loadPage_miss [OF s(2) miss]
    obtain s' k where r: "clock_scan s pg 0 = Some (s', k)" "clock_loadPage s pg = Some s'"
      "0 < k" "k \<le> NUM_FRAMES + 1"
      by blast
    from clock_scan_sweep [OF b r(1)]
    obtain j where j: "k = 0 + j + 1"
      "\<forall>i<j. valid_c (frames s ! ((?h0 + i) mod NUM_FRAMES)) \<and>
             reference (frames s ! ((?h0 + i) mod NUM_FRAMES))"
      "j = NUM_FRAMES \<or>
        \<not> valid_c (frames s ! ((?h0 + j) mod NUM_FRAMES)) \<or>
        \<not> reference (frames s ! ((?h0 + j) mod NUM_FRAMES))"
      "frames s' ! ((?h0 + j) mod NUM_FRAMES) = \<lparr>page_c = pg, valid_c = True, reference = True\<rparr>"
      "sint (clockHand s') = int ((?h0 + j + 1) mod NUM_FRAMES)"
      "length (frames s') = NUM_FRAMES" "numFrames_c s' = numFrames_c s"
      "\<forall>i<NUM_FRAMES. i \<noteq> (?h0 + j) mod NUM_FRAMES \<longrightarrow>
        page_c (frames s' ! i) = page_c (frames s ! i) \<and>
        valid_c (frames s' ! i) = valid_c (frames s ! i) \<and>
        reference (frames s' ! i) =
          (reference (frames s ! i) \<and> (\<forall>i'<j. i \<noteq> (?h0 + i') mod NUM_FRAMES))"
      by blast
    have "(?h0 + j) mod NUM_FRAMES < length (frames s')"
      using j(6) by simp
    then have "frames s' ! ((?h0 + j) mod NUM_FRAMES) \<in> set (frames s')"
      by (rule nth_mem)
    with j(4) have "\<lparr>page_c = pg, valid_c = True, reference = True\<rparr> \<in> set (filter valid_c (frames s'))"
      by simp
    then have res: "pg \<in> set (clock_resident s')"
      unfolding clock_resident_def by force
    from r(4) have k8: "k \<le> 2 * NUM_FRAMES" by simp
    from j(1) have kj: "k = j + 1" by simp
    from r(1,2,3) k8 kj j(2-8) res show ?thesis
      by (intro exI [of _ s'] exI [of _ k] exI [of _ j] conjI)
  qed
  then have imp: "clock_findFrame s pg = - 1 \<Longrightarrow>
    \<exists>s' k j. clock_scan s pg 0 = Some (s', k) \<and> clock_loadPage s pg = Some s' \<and>
           0 < k \<and> k \<le> 2 * NUM_FRAMES \<and> k = j + 1 \<and>
           (\<forall>i<j. valid_c (frames s ! ((?h0 + i) mod NUM_FRAMES)) \<and>
                  reference (frames s ! ((?h0 + i) mod NUM_FRAMES))) \<and>
           (j = NUM_FRAMES \<or>
            \<not> valid_c (frames s ! ((?h0 + j) mod NUM_FRAMES)) \<or>
            \<not> reference (frames s ! ((?h0 + j) mod NUM_FRAMES))) \<and>
           frames s' ! ((?h0 + j) mod NUM_FRAMES) =
             \<lparr>page_c = pg, valid_c = True, reference = True\<rparr> \<and>
           sint (clockHand s') = int ((?h0 + j + 1) mod NUM_FRAMES) \<and>
           length (frames s') = NUM_FRAMES \<and> numFrames_c s' = numFrames_c s \<and>
           (\<forall>i<NUM_FRAMES. i \<noteq> (?h0 + j) mod NUM_FRAMES \<longrightarrow>
              page_c (frames s' ! i) = page_c (frames s ! i) \<and>
              valid_c (frames s' ! i) = valid_c (frames s ! i) \<and>
              reference (frames s' ! i) =
                (reference (frames s ! i) \<and> (\<forall>i'<j. i \<noteq> (?h0 + i') mod NUM_FRAMES))) \<and>
           pg \<in> set (clock_resident s')" .
  show ?thesis
    apply (rule exI [of _ s])
    apply (rule conjI)
     apply (rule s(1))
    apply (rule impI)
    apply (erule imp)
    done
qed

text \<open>The full table of C5, where the scan is longest: five iterations, slot 0 claimed.\<close>

theorem clock_miss_terminates_witness:
  "clock_run clock_createFrameList [1, 2, 3, 4] =
     Some \<lparr>numFrames_c = 0,
       frames = [\<lparr>page_c = 1, valid_c = True, reference = True\<rparr>,
                 \<lparr>page_c = 2, valid_c = True, reference = True\<rparr>,
                 \<lparr>page_c = 3, valid_c = True, reference = True\<rparr>,
                 \<lparr>page_c = 4, valid_c = True, reference = True\<rparr>],
       clockHand = 0\<rparr> \<and>
   clock_findFrame
     \<lparr>numFrames_c = 0,
       frames = [\<lparr>page_c = 1, valid_c = True, reference = True\<rparr>,
                 \<lparr>page_c = 2, valid_c = True, reference = True\<rparr>,
                 \<lparr>page_c = 3, valid_c = True, reference = True\<rparr>,
                 \<lparr>page_c = 4, valid_c = True, reference = True\<rparr>],
       clockHand = 0\<rparr> 5 = - 1 \<and>
   (\<exists>s' k. clock_scan
     \<lparr>numFrames_c = 0,
       frames = [\<lparr>page_c = 1, valid_c = True, reference = True\<rparr>,
                 \<lparr>page_c = 2, valid_c = True, reference = True\<rparr>,
                 \<lparr>page_c = 3, valid_c = True, reference = True\<rparr>,
                 \<lparr>page_c = 4, valid_c = True, reference = True\<rparr>],
       clockHand = 0\<rparr> 5 0 = Some (s', k) \<and> 0 < k \<and> k \<le> 2 * NUM_FRAMES \<and>
     k = 5 \<and>
     s' = \<lparr>numFrames_c = 0,
       frames = [\<lparr>page_c = 5, valid_c = True, reference = True\<rparr>,
                 \<lparr>page_c = 2, valid_c = True, reference = False\<rparr>,
                 \<lparr>page_c = 3, valid_c = True, reference = False\<rparr>,
                 \<lparr>page_c = 4, valid_c = True, reference = False\<rparr>],
       clockHand = 1\<rparr> \<and>
     5 \<in> set (clock_resident s'))"
proof -
  let ?S = "\<lparr>numFrames_c = 0,
       frames = [\<lparr>page_c = 1, valid_c = True, reference = True\<rparr>,
                 \<lparr>page_c = 2, valid_c = True, reference = True\<rparr>,
                 \<lparr>page_c = 3, valid_c = True, reference = True\<rparr>,
                 \<lparr>page_c = 4, valid_c = True, reference = True\<rparr>],
       clockHand = 0\<rparr>"
  let ?S' = "\<lparr>numFrames_c = 0,
       frames = [\<lparr>page_c = 5, valid_c = True, reference = True\<rparr>,
                 \<lparr>page_c = 2, valid_c = True, reference = False\<rparr>,
                 \<lparr>page_c = 3, valid_c = True, reference = False\<rparr>,
                 \<lparr>page_c = 4, valid_c = True, reference = False\<rparr>],
       clockHand = 1\<rparr>"
  have run: "clock_run clock_createFrameList [1, 2, 3, 4] = Some ?S"
    by code_simp
  have miss: "clock_findFrame ?S 5 = - 1"
    by code_simp
  have scan: "clock_scan ?S 5 0 = Some (?S', 5)"
    by code_simp
  from clock_miss_terminates [of "[1, 2, 3, 4]" 5]
  obtain s where s: "clock_run clock_createFrameList [1, 2, 3, 4] = Some s"
    "clock_findFrame s 5 = - 1 \<longrightarrow>
        (\<exists>s' k j. clock_scan s 5 0 = Some (s', k) \<and> clock_loadPage s 5 = Some s' \<and>
           0 < k \<and> k \<le> 2 * NUM_FRAMES \<and> k = j + 1 \<and>
           (\<forall>i<j. valid_c (frames s ! ((nat (sint (clockHand s)) + i) mod NUM_FRAMES)) \<and>
                  reference (frames s ! ((nat (sint (clockHand s)) + i) mod NUM_FRAMES))) \<and>
           (j = NUM_FRAMES \<or>
            \<not> valid_c (frames s ! ((nat (sint (clockHand s)) + j) mod NUM_FRAMES)) \<or>
            \<not> reference (frames s ! ((nat (sint (clockHand s)) + j) mod NUM_FRAMES))) \<and>
           frames s' ! ((nat (sint (clockHand s)) + j) mod NUM_FRAMES) =
             \<lparr>page_c = 5, valid_c = True, reference = True\<rparr> \<and>
           sint (clockHand s') = int ((nat (sint (clockHand s)) + j + 1) mod NUM_FRAMES) \<and>
           length (frames s') = NUM_FRAMES \<and> numFrames_c s' = numFrames_c s \<and>
           (\<forall>i<NUM_FRAMES. i \<noteq> (nat (sint (clockHand s)) + j) mod NUM_FRAMES \<longrightarrow>
              page_c (frames s' ! i) = page_c (frames s ! i) \<and>
              valid_c (frames s' ! i) = valid_c (frames s ! i) \<and>
              reference (frames s' ! i) =
                (reference (frames s ! i) \<and>
                 (\<forall>i'<j. i \<noteq> (nat (sint (clockHand s)) + i') mod NUM_FRAMES))) \<and>
           5 \<in> set (clock_resident s'))"
    by (elim exE conjE)
  from run s(1) have e: "s = ?S" by simp
  from s(2) miss [folded e] obtain s' k j where r: "clock_scan s 5 0 = Some (s', k)"
    "clock_loadPage s 5 = Some s'" "0 < k" "k \<le> 2 * NUM_FRAMES" "k = j + 1"
    and rest: "5 \<in> set (clock_resident s')"
    by (elim impE exE conjE)
  from r(1) scan have v: "s' = ?S'" "k = 5" unfolding e by simp_all
  from r(1) r(3) r(4) v(2) v(1) rest
  have "\<exists>s' k. clock_scan ?S 5 0 = Some (s', k) \<and> 0 < k \<and> k \<le> 2 * NUM_FRAMES \<and>
     k = 5 \<and> s' = ?S' \<and> 5 \<in> set (clock_resident s')"
    unfolding e by (intro exI [of _ s'] exI [of _ k] conjI)
  with run miss show ?thesis by (intro conjI)
qed

text \<open>
  C10. \<^verbatim>\<open>createFrameList\<close> sets \<^verbatim>\<open>numFrames\<close> to 0, no \<^verbatim>\<open>loadPage\<close> call that returns
  changes it, whatever the state it starts in, and so it is 0 after every sequence of calls.
\<close>

theorem clock_numFrames_never_modified:
  "numFrames_c clock_createFrameList = 0 \<and>
   (\<forall>s pg s'. clock_loadPage s pg = Some s' \<longrightarrow> numFrames_c s' = numFrames_c s) \<and>
   (\<exists>s. clock_run clock_createFrameList pgs = Some s \<and> numFrames_c s = 0)"
proof (intro conjI allI impI)
  show "numFrames_c clock_createFrameList = 0"
    by (simp add: clock_createFrameList_def)
next
  fix s pg s'
  assume "clock_loadPage s pg = Some s'"
  then show "numFrames_c s' = numFrames_c s"
    by (auto simp: clock_loadPage_def Let_def split: if_splits dest: clock_scan_numFrames)
next
  from clock_reachable_inv [of pgs]
  show "\<exists>s. clock_run clock_createFrameList pgs = Some s \<and> numFrames_c s = 0"
    by (auto simp: clock_inv_def)
qed

text \<open>The counter is 0 although all four slots are occupied.\<close>

theorem clock_numFrames_never_modified_witness:
  "map_option clock_occupied (clock_run clock_createFrameList [1, 2, 3, 4]) = Some NUM_FRAMES \<and>
   map_option numFrames_c (clock_run clock_createFrameList [1, 2, 3, 4]) = Some 0 \<and>
   map_option numFrames_c (clock_loadPage clock_createFrameList 7) = Some 0"
proof -
  have occ: "map_option clock_occupied (clock_run clock_createFrameList [1, 2, 3, 4]) = Some NUM_FRAMES"
    by code_simp
  have l: "clock_loadPage clock_createFrameList 7 \<noteq> None"
    by code_simp
  from clock_numFrames_never_modified [of "[1, 2, 3, 4]"] occ l show ?thesis
    by auto
qed


section \<open>Linked frames: proofs\<close>

subsection \<open>Doubly linked segments\<close>

text \<open>
  \<open>dseg h q p as r\<close>: following \<open>next\<close> from \<open>p\<close> visits exactly the cells \<open>as\<close> and ends
  at \<open>r\<close>; the \<open>prev\<close> of each cell is the cell before it, the first one's is \<open>q\<close>.
\<close>

fun dseg :: "(nat \<rightharpoonup> 'a Frame_scheme) \<Rightarrow> ptr \<Rightarrow> ptr \<Rightarrow> nat list \<Rightarrow> ptr \<Rightarrow> bool" where
  "dseg h q p [] r \<longleftrightarrow> p = r"
| "dseg h q p (a # as) r \<longleftrightarrow>
     p = Some a \<and>
     (case h a of None \<Rightarrow> False | Some F \<Rightarrow> prev F = q \<and> dseg h (Some a) (next F) as r)"

definition lastp :: "ptr \<Rightarrow> nat list \<Rightarrow> ptr" where
  "lastp q as = (if as = [] then q else Some (last as))"

definition firstp :: "nat list \<Rightarrow> ptr \<Rightarrow> ptr" where
  "firstp as r = (case as of [] \<Rightarrow> r | a # _ \<Rightarrow> Some a)"

lemma lastp_simps [simp]:
  "lastp q [] = q" "lastp q (a # as) = lastp (Some a) as" "lastp q (as @ [a]) = Some a"
  by (simp_all add: lastp_def)

lemma lastp_append: "lastp q (as @ bs) = lastp (lastp q as) bs"
  by (simp add: lastp_def)

lemma firstp_simps [simp]: "firstp [] r = r" "firstp (a # as) r = Some a"
  by (simp_all add: firstp_def)

lemma dseg_first: "dseg h q p as r \<Longrightarrow> p = firstp as r"
  by (cases as) simp_all

lemma dseg_Cons:
  "dseg h q p (a # as) r \<longleftrightarrow>
     p = Some a \<and> (\<exists>F. h a = Some F \<and> prev F = q \<and> dseg h (Some a) (next F) as r)"
  by (simp split: option.split)

declare dseg.simps(2) [simp del]
declare dseg_Cons [simp]

lemma dseg_allocated: "dseg h q p as r \<Longrightarrow> a \<in> set as \<Longrightarrow> \<exists>F. h a = Some F"
  by (induction as arbitrary: q p) auto

lemma dseg_append:
  "dseg h q p (as @ bs) r \<longleftrightarrow> (\<exists>m. dseg h q p as m \<and> dseg h (lastp q as) m bs r)"
  by (induction as arbitrary: q p) auto

lemma dseg_upd_other:
  "a \<notin> set as \<Longrightarrow> dseg (h(a := v)) q p as r = dseg h q p as r"
  by (induction as arbitrary: q p) auto

lemma dseg_upd_payload:
  "h a = Some F \<Longrightarrow> prev G = prev F \<Longrightarrow> next G = next F \<Longrightarrow>
   dseg (h(a \<mapsto> G)) q p as r = dseg h q p as r"
  by (induction as arbitrary: q p) auto

lemma dseg_set_next_last:
  assumes "dseg h q p (as @ [l]) r" "l \<notin> set as" "h l = Some L"
  shows "dseg (h(l \<mapsto> L\<lparr>next := r'\<rparr>)) q p (as @ [l]) r'"
  using assms by (auto simp: dseg_append dseg_upd_other)

lemma dseg_set_prev_first:
  assumes "dseg h q p (n # as) r" "n \<notin> set as" "h n = Some N"
  shows "dseg (h(n \<mapsto> N\<lparr>prev := q'\<rparr>)) q' p (n # as) r"
  using assms by (auto simp: dseg_upd_other)

lemma dseg_None_start: "dseg h q None as r \<longleftrightarrow> as = [] \<and> r = None"
  by (cases as) auto

subsection \<open>The loops on a well-formed list\<close>

lemma findFrame_from_dseg:
  "dseg h q p as None \<Longrightarrow>
   findFrame_from h p pg = Some (List.find (\<lambda>a. page (the (h a)) = pg) as)"
proof (induction as arbitrary: q p)
  case Nil
  then show ?case by (subst findFrame_from.simps) simp
next
  case (Cons a as)
  from Cons.prems obtain F where F: "p = Some a" "h a = Some F" "dseg h (Some a) (next F) as None"
    by auto
  from Cons.IH [OF F(3)] F(1,2) show ?case
    by (subst findFrame_from.simps) simp
qed

lemma frames_from_dseg:
  "dseg h q p as None \<Longrightarrow> frames_from h p = Some (map (\<lambda>a. the (h a)) as)"
proof (induction as arbitrary: q p)
  case Nil
  then show ?case by (subst frames_from.simps) simp
next
  case (Cons a as)
  from Cons.prems obtain F where F: "p = Some a" "h a = Some F" "dseg h (Some a) (next F) as None"
    by auto
  from Cons.IH [OF F(3)] F(1,2) show ?case
    by (subst frames_from.simps) simp
qed


subsection \<open>Well-formed states\<close>

text \<open>
  \<open>shape s as\<close>: the cells of the list of \<open>s\<close>, head first, are \<open>as\<close>. The payload of a
  cell is what is not a link.
\<close>

definition shape :: "'a state \<Rightarrow> nat list \<Rightarrow> bool" where
  "shape s as \<longleftrightarrow>
     dseg (heap s) None (head s) as None \<and> tail s = lastp None as \<and> distinct as"

definition payload :: "'a Frame_scheme \<Rightarrow> c_int \<times> bool \<times> 'a" where
  "payload F = (page F, valid F, Frame.more F)"

definition same_payload :: "(nat \<rightharpoonup> 'a Frame_scheme) \<Rightarrow> (nat \<rightharpoonup> 'a Frame_scheme) \<Rightarrow> bool" where
  "same_payload h h' \<longleftrightarrow> (\<forall>a. map_option payload (h' a) = map_option payload (h a))"

lemma same_payload_refl [simp]: "same_payload h h"
  by (simp add: same_payload_def)

lemma same_payload_trans:
  "same_payload h h' \<Longrightarrow> same_payload h' h'' \<Longrightarrow> same_payload h h''"
  by (simp add: same_payload_def)

lemma same_payload_upd:
  "h a = Some F \<Longrightarrow> payload G = payload F \<Longrightarrow> same_payload h (h(a \<mapsto> G))"
  by (simp add: same_payload_def)

lemma same_payload_upd_next:
  "same_payload h h' \<Longrightarrow> h' a = Some F \<Longrightarrow> same_payload h (h'(a \<mapsto> F\<lparr>next := x\<rparr>))"
  by (erule same_payload_trans, rule same_payload_upd) (simp_all add: payload_def)

lemma same_payload_upd_prev:
  "same_payload h h' \<Longrightarrow> h' a = Some F \<Longrightarrow> same_payload h (h'(a \<mapsto> F\<lparr>prev := x\<rparr>))"
  by (erule same_payload_trans, rule same_payload_upd) (simp_all add: payload_def)

lemma store_Some:
  "heap s a = Some F \<Longrightarrow> store s a f = Some (s\<lparr>heap := (heap s)(a \<mapsto> f F)\<rparr>)"
  by (simp add: store_def)

lemma insertFrame_shape:
  assumes "shape s as" "a \<notin> set as" "heap s a = Some A" "prev A = None" "next A = None"
  shows "\<exists>s'. insertFrame s a = Some s' \<and> shape s' (a # as) \<and>
           numFrames s' = numFrames s + 1 \<and> brk s' = brk s \<and>
           same_payload (heap s) (heap s')"
proof (cases as)
  case Nil
  with assms have "head s = None"
    by (simp add: shape_def)
  with assms Nil show ?thesis
    by (simp add: insertFrame_def shape_def)
next
  case (Cons b bs)
  with assms obtain B where B: "head s = Some b" "heap s b = Some B" "b \<noteq> a"
    by (auto simp: shape_def)
  let ?h1 = "(heap s)(a \<mapsto> A\<lparr>next := Some b\<rparr>)"
  let ?h2 = "?h1(b \<mapsto> B\<lparr>prev := Some a\<rparr>)"
  let ?s' = "s\<lparr>heap := ?h2, head := Some a, numFrames := numFrames s + 1\<rparr>"
  have run: "insertFrame s a = Some ?s'"
    using assms(3) B by (simp add: insertFrame_def store_def)
  from assms Cons have "dseg (heap s) None (Some b) (b # bs) None"
    using B by (simp add: shape_def)
  with assms(2) Cons have "dseg ?h1 None (Some b) (b # bs) None"
    by (simp add: dseg_upd_other del: dseg_Cons)
  moreover from assms(1) Cons have "b \<notin> set bs" by (simp add: shape_def)
  moreover have "?h1 b = Some B" using B by simp
  ultimately have "dseg ?h2 (Some a) (Some b) (b # bs) None"
    by (rule dseg_set_prev_first)
  with assms Cons B have "shape ?s' (a # as)"
    by (simp add: shape_def)
  moreover have "same_payload (heap s) ?h2"
    using assms(3) B by (intro same_payload_upd_prev same_payload_upd_next) simp_all
  ultimately show ?thesis using run by simp
qed


lemma dseg_mid:
  assumes "dseg h q p (ys @ t # zs) None"
  obtains T where "dseg h q p ys (Some t)" "h t = Some T" "prev T = lastp q ys"
    "dseg h (Some t) (next T) zs None" "next T = firstp zs None"
proof -
  from assms obtain T where T: "dseg h q p ys (Some t)" "h t = Some T" "prev T = lastp q ys"
    "dseg h (Some t) (next T) zs None"
    by (auto simp: dseg_append)
  from dseg_first [OF T(4)] T that show thesis by blast
qed

lemma removeFrame_shape:
  assumes sh: "shape s (ys @ t # zs)"
  shows "\<exists>s'. removeFrame s t = Some s' \<and> shape s' (ys @ zs) \<and>
           numFrames s' = numFrames s - 1 \<and> brk s' = brk s \<and>
           same_payload ((heap s)(t := None)) (heap s') \<and>
           (\<forall>b. b \<notin> set (ys @ t # zs) \<longrightarrow> heap s' b = heap s b)"
proof -
  from sh have d: "dseg (heap s) None (head s) (ys @ t # zs) None"
    and tl: "tail s = lastp None (ys @ t # zs)"
    and dist: "distinct ys" "distinct zs" "t \<notin> set ys" "t \<notin> set zs" "set ys \<inter> set zs = {}"
    by (auto simp: shape_def)
  from d obtain T where T: "dseg (heap s) None (head s) ys (Some t)" "heap s t = Some T"
    "prev T = lastp None ys" "dseg (heap s) (Some t) (next T) zs None" "next T = firstp zs None"
    by (rule dseg_mid)
  \<comment> \<open>the first \<^verbatim>\<open>if\<close>: the cell before \<open>t\<close>, or the head, now leads to the cell after \<open>t\<close>\<close>
  have "\<exists>s1. (case prev T of
                 Some p \<Rightarrow> store s p (\<lambda>P. P\<lparr>next := next T\<rparr>)
               | None \<Rightarrow> Some (s\<lparr>head := next T\<rparr>)) = Some s1 \<and>
          dseg (heap s1) None (head s1) ys (next T) \<and> heap s1 t = Some T \<and>
          dseg (heap s1) (Some t) (next T) zs None \<and> tail s1 = tail s \<and>
          numFrames s1 = numFrames s \<and> brk s1 = brk s \<and> same_payload (heap s) (heap s1) \<and>
          (\<forall>b. b \<notin> set (ys @ t # zs) \<longrightarrow> heap s1 b = heap s b)"
  proof (cases ys rule: rev_cases)
    case Nil
    with T show ?thesis by simp
  next
    case (snoc ys' p)
    with T(1) obtain P where P: "heap s p = Some P"
      using dseg_allocated [of "heap s" None "head s" ys "Some t" p] by auto
    from snoc dist have ne: "p \<noteq> t" "p \<notin> set ys'" "p \<notin> set zs" by auto
    let ?h1 = "(heap s)(p \<mapsto> P\<lparr>next := next T\<rparr>)"
    have "dseg ?h1 None (head s) ys (next T)"
      using T(1) ne(2) P unfolding snoc by (rule dseg_set_next_last)
    moreover have "dseg ?h1 (Some t) (next T) zs None"
      using T(4) ne(3) by (simp add: dseg_upd_other del: dseg_Cons)
    moreover have "same_payload (heap s) ?h1"
      using P by (intro same_payload_upd_next) simp_all
    ultimately show ?thesis
      using T(2,3) snoc P ne(1) by (simp add: store_def)
  qed
  then obtain s1 where s1:
    "(case prev T of
        Some p \<Rightarrow> store s p (\<lambda>P. P\<lparr>next := next T\<rparr>)
      | None \<Rightarrow> Some (s\<lparr>head := next T\<rparr>)) = Some s1"
    "dseg (heap s1) None (head s1) ys (next T)" "heap s1 t = Some T"
    "dseg (heap s1) (Some t) (next T) zs None" "tail s1 = tail s"
    "numFrames s1 = numFrames s" "brk s1 = brk s" "same_payload (heap s) (heap s1)"
    "\<forall>b. b \<notin> set (ys @ t # zs) \<longrightarrow> heap s1 b = heap s b"
    by blast
  \<comment> \<open>the second \<^verbatim>\<open>if\<close>: the cell after \<open>t\<close>, or the tail, now leads back to the cell before\<close>
  have "\<exists>s2. (case next T of
                 Some n \<Rightarrow> store s1 n (\<lambda>N. N\<lparr>prev := prev T\<rparr>)
               | None \<Rightarrow> Some (s1\<lparr>tail := prev T\<rparr>)) = Some s2 \<and>
          dseg (heap s2) None (head s2) (ys @ zs) None \<and> heap s2 t = Some T \<and>
          tail s2 = lastp None (ys @ zs) \<and>
          numFrames s2 = numFrames s \<and> brk s2 = brk s \<and> same_payload (heap s) (heap s2) \<and>
          (\<forall>b. b \<notin> set (ys @ t # zs) \<longrightarrow> heap s2 b = heap s b)"
  proof (cases zs)
    case Nil
    with T s1 show ?thesis by (simp add: lastp_append)
  next
    case (Cons n zs')
    with s1(4) obtain N where N: "heap s1 n = Some N"
      by auto
    from Cons dist have ne: "n \<noteq> t" "n \<notin> set zs'" "n \<notin> set ys" by auto
    let ?h2 = "(heap s1)(n \<mapsto> N\<lparr>prev := prev T\<rparr>)"
    from T(5) Cons have nx: "next T = Some n" by simp
    have "dseg ?h2 (prev T) (next T) (n # zs') None"
      using s1(4) ne(2) N unfolding Cons by (rule dseg_set_prev_first)
    moreover have "dseg ?h2 None (head s1) ys (next T)"
      using s1(2) ne(3) by (simp add: dseg_upd_other del: dseg_Cons)
    ultimately have "dseg ?h2 None (head s1) (ys @ zs) None"
      unfolding Cons dseg_append T(3) by blast
    moreover have "same_payload (heap s) ?h2"
      using N s1(8) by (intro same_payload_upd_prev) simp_all
    moreover have "tail s = lastp None (ys @ zs)"
      using tl Cons by (simp add: lastp_append)
    ultimately show ?thesis
      using nx N s1 ne(1) Cons by (simp add: store_def)
  qed
  then obtain s2 where s2:
    "(case next T of
        Some n \<Rightarrow> store s1 n (\<lambda>N. N\<lparr>prev := prev T\<rparr>)
      | None \<Rightarrow> Some (s1\<lparr>tail := prev T\<rparr>)) = Some s2"
    "dseg (heap s2) None (head s2) (ys @ zs) None" "heap s2 t = Some T"
    "tail s2 = lastp None (ys @ zs)"
    "numFrames s2 = numFrames s" "brk s2 = brk s" "same_payload (heap s) (heap s2)"
    "\<forall>b. b \<notin> set (ys @ t # zs) \<longrightarrow> heap s2 b = heap s b"
    by blast
  let ?s' = "s2\<lparr>numFrames := numFrames s2 - 1, heap := (heap s2)(t := None)\<rparr>"
  have run: "removeFrame s t = Some ?s'"
    using T(2) s1(1,3) s2(1,3) by (simp add: removeFrame_def free_def)
  have "dseg ((heap s2)(t := None)) None (head s2) (ys @ zs) None"
    using s2(2) dist by (simp add: dseg_upd_other del: dseg_Cons)
  with s2 dist have "shape ?s' (ys @ zs)"
    by (auto simp: shape_def)
  moreover have "same_payload ((heap s)(t := None)) ((heap s2)(t := None))"
    using s2(7) by (simp add: same_payload_def)
  ultimately show ?thesis
    using run s2 by simp
qed


lemma moveToHead_at_head: "head s = Some t \<Longrightarrow> moveToHead s t = Some s"
  by (simp add: moveToHead_def)

lemma moveToHead_shape:
  assumes sh: "shape s (ys @ t # zs)" and ne: "ys \<noteq> []"
  shows "\<exists>s'. moveToHead s t = Some s' \<and> shape s' (t # ys @ zs) \<and>
           numFrames s' = numFrames s \<and> brk s' = brk s \<and>
           same_payload (heap s) (heap s')"
proof -
  from sh have d: "dseg (heap s) None (head s) (ys @ t # zs) None"
    and tl: "tail s = lastp None (ys @ t # zs)"
    and dist: "distinct ys" "distinct zs" "t \<notin> set ys" "t \<notin> set zs" "set ys \<inter> set zs = {}"
    by (auto simp: shape_def)
  from d obtain T where T: "dseg (heap s) None (head s) ys (Some t)" "heap s t = Some T"
    "prev T = lastp None ys" "dseg (heap s) (Some t) (next T) zs None" "next T = firstp zs None"
    by (rule dseg_mid)
  from ne obtain y0 ys0 where ys: "ys = y0 # ys0"
    by (cases ys) auto
  with T(1) dist have hd: "head s = Some y0" "y0 \<noteq> t" "y0 \<notin> set ys0" "y0 \<notin> set zs"
    by auto
  from ne obtain ys' p where snoc: "ys = ys' @ [p]"
    by (cases ys rule: rev_cases) auto
  with T(1) obtain P where P: "heap s p = Some P"
    using dseg_allocated [of "heap s" None "head s" ys "Some t" p] by auto
  from snoc dist have nep: "p \<noteq> t" "p \<notin> set ys'" "p \<notin> set zs" by auto
  from snoc T(3) have pv: "prev T = Some p" by simp
  \<comment> \<open>\<^verbatim>\<open>frame->prev->next = frame->next\<close>\<close>
  define h1 where "h1 = (heap s)(p \<mapsto> P\<lparr>next := next T\<rparr>)"
  have s1: "store s p (\<lambda>P. P\<lparr>next := next T\<rparr>) = Some (s\<lparr>heap := h1\<rparr>)"
    using P by (simp add: store_def h1_def)
  have d1: "dseg h1 None (head s) ys (next T)"
    using T(1) nep(2) P unfolding snoc h1_def by (rule dseg_set_next_last)
  have d1': "dseg h1 (Some t) (next T) zs None"
    using T(4) nep(3) by (simp add: h1_def dseg_upd_other del: dseg_Cons)
  have t1: "h1 t = Some T"
    using T(2) nep(1) by (simp add: h1_def)
  have p1: "same_payload (heap s) h1"
    unfolding h1_def using P by (intro same_payload_upd_next) simp_all
  \<comment> \<open>\<^verbatim>\<open>frame->next->prev = frame->prev\<close>, when there is a next frame\<close>
  have "\<exists>h2. (case next T of
                 None \<Rightarrow> Some (s\<lparr>heap := h1\<rparr>)
               | Some n \<Rightarrow> store (s\<lparr>heap := h1\<rparr>) n (\<lambda>N. N\<lparr>prev := prev T\<rparr>)) =
               Some (s\<lparr>heap := h2\<rparr>) \<and>
          dseg h2 None (head s) (ys @ zs) None \<and> h2 t = Some T \<and> same_payload (heap s) h2"
  proof (cases zs)
    case Nil
    with T d1 t1 p1 show ?thesis by (intro exI [of _ h1]) simp
  next
    case (Cons n zs')
    with d1' obtain N where N: "h1 n = Some N"
      by auto
    from Cons dist have nen: "n \<noteq> t" "n \<notin> set zs'" "n \<notin> set ys" by auto
    let ?h2 = "h1(n \<mapsto> N\<lparr>prev := prev T\<rparr>)"
    from T(5) Cons have nx: "next T = Some n" by simp
    have "dseg ?h2 (prev T) (next T) (n # zs') None"
      using d1' nen(2) N unfolding Cons by (rule dseg_set_prev_first)
    moreover have "dseg ?h2 None (head s) ys (next T)"
      using d1 nen(3) by (simp add: dseg_upd_other del: dseg_Cons)
    ultimately have "dseg ?h2 None (head s) (ys @ zs) None"
      unfolding Cons dseg_append T(3) by blast
    moreover have "same_payload (heap s) ?h2"
      using N p1 by (intro same_payload_upd_prev) simp_all
    ultimately show ?thesis
      using nx N t1 nen(1) by (intro exI [of _ ?h2]) (simp add: store_def)
  qed
  then obtain h2 where s2:
    "(case next T of
        None \<Rightarrow> Some (s\<lparr>heap := h1\<rparr>)
      | Some n \<Rightarrow> store (s\<lparr>heap := h1\<rparr>) n (\<lambda>N. N\<lparr>prev := prev T\<rparr>)) = Some (s\<lparr>heap := h2\<rparr>)"
    and d2: "dseg h2 None (head s) (ys @ zs) None" and t2: "h2 t = Some T"
    and p2: "same_payload (heap s) h2"
    by blast
  \<comment> \<open>the tail moves to the frame before when the frame was the last\<close>
  define tl3 where "tl3 = (if tail s = Some t then prev T else tail s)"
  have tl3: "tl3 = lastp None (ys @ zs)"
  proof (cases zs rule: rev_cases)
    case Nil
    with tl T(3) show ?thesis by (simp add: tl3_def lastp_append)
  next
    case (snoc zs' z)
    with dist(4) have "z \<noteq> t" by auto
    with tl snoc show ?thesis by (simp add: tl3_def lastp_append)
  qed
  have s3: "(if tail (s\<lparr>heap := h2\<rparr>) = Some t then s\<lparr>heap := h2\<rparr>\<lparr>tail := prev T\<rparr>
             else s\<lparr>heap := h2\<rparr>) = s\<lparr>heap := h2, tail := tl3\<rparr>"
    by (simp add: tl3_def)
  \<comment> \<open>the frame is linked in front of the old head\<close>
  define h5 where "h5 = h2(t \<mapsto> T\<lparr>next := Some y0, prev := None\<rparr>)"
  have d5: "dseg h5 None (head s) (ys @ zs) None"
    using d2 dist by (simp add: h5_def dseg_upd_other del: dseg_Cons)
  then obtain Y where Y: "h5 y0 = Some Y"
    using ys hd by auto
  define h6 where "h6 = h5(y0 \<mapsto> Y\<lparr>prev := Some t\<rparr>)"
  have "dseg h6 (Some t) (Some y0) (y0 # ys0 @ zs) None"
    unfolding h6_def using d5 hd Y ys by (intro dseg_set_prev_first) simp_all
  moreover have "h6 t = Some (T\<lparr>next := Some y0, prev := None\<rparr>)"
    using hd(2) by (simp add: h6_def h5_def)
  ultimately have d6: "dseg h6 None (Some t) (t # ys @ zs) None"
    using ys by simp
  have p6: "same_payload (heap s) h6"
    unfolding h6_def h5_def using p2 t2 Y
    by (intro same_payload_upd_prev same_payload_upd [THEN [2] same_payload_trans])
      (simp_all add: payload_def h5_def)
  let ?s' = "s\<lparr>heap := h6, tail := tl3, head := Some t\<rparr>"
  have tn: "tl3 \<noteq> None"
    using tl3 ne by (simp add: lastp_def)
  have run: "moveToHead s t = Some ?s'"
    using hd(1,2) T(2) pv s1 t1 s2 t2 s3 Y tn
    by (simp add: moveToHead_def store_def h5_def h6_def)
  have "lastp None (ys @ zs) = lastp (Some t) (ys @ zs)"
    using ne by (simp add: lastp_def)
  then have "shape ?s' (t # ys @ zs)"
    using d6 tl3 dist by (simp add: shape_def del: dseg_Cons)
  with run p6 show ?thesis by simp
qed

subsection \<open>The invariant of the list states\<close>

lemma find_first:
  "(\<forall>y\<in>set ys. \<not> P y) \<Longrightarrow> P t \<Longrightarrow> List.find P (ys @ t # zs) = Some t"
  by (induction ys) auto

lemma find_SomeD:
  "List.find P as = Some t \<Longrightarrow> \<exists>ys zs. as = ys @ t # zs \<and> P t \<and> (\<forall>y\<in>set ys. \<not> P y)"
proof (induction as)
  case Nil
  then show ?case by simp
next
  case (Cons a as)
  show ?case
  proof (cases "P a")
    case True
    with Cons.prems show ?thesis by (intro exI [of _ "[]"] exI [of _ as]) auto
  next
    case False
    with Cons obtain ys zs where "as = ys @ t # zs" "P t" "\<forall>y\<in>set ys. \<not> P y"
      by auto
    with False show ?thesis by (intro exI [of _ "a # ys"] exI [of _ zs]) auto
  qed
qed

lemma word4_cases:
  "n \<le> 4 \<Longrightarrow> (of_nat n :: c_int) = 4 \<longleftrightarrow> n = 4"
proof -
  assume "n \<le> 4"
  then have "n = 0 \<or> n = 1 \<or> n = 2 \<or> n = 3 \<or> n = 4" by arith
  then show ?thesis by auto
qed

text \<open>The cell at an address, and the payloads along a list of addresses.\<close>

definition cell :: "'a state \<Rightarrow> nat \<Rightarrow> 'a Frame_scheme" where
  "cell s a = the (heap s a)"

definition list_inv :: "'a state \<Rightarrow> nat list \<Rightarrow> bool" where
  "list_inv s as \<longleftrightarrow>
     shape s as \<and> numFrames s = of_nat (length as) \<and> length as \<le> NUM_FRAMES \<and>
     (\<forall>a\<in>set as. a < brk s) \<and>
     distinct (map (\<lambda>a. page (cell s a)) as) \<and> (\<forall>a\<in>set as. valid (cell s a))"

lemma same_payload_cell:
  "same_payload (heap s) (heap s') \<Longrightarrow> payload (cell s' a) = payload (cell s a)"
  by (cases "heap s a"; cases "heap s' a")
    (auto simp: same_payload_def cell_def dest: spec [of _ a])

lemma payload_page: "payload F = payload G \<Longrightarrow> page F = page G"
  and payload_valid: "payload F = payload G \<Longrightarrow> valid F = valid G"
  by (simp_all add: payload_def)

lemma findFrame_shape:
  "shape s as \<Longrightarrow> findFrame s pg = Some (List.find (\<lambda>a. page (cell s a) = pg) as)"
  unfolding findFrame_def cell_def shape_def by (auto dest: findFrame_from_dseg)

lemma printFrameList_shape:
  "shape s as \<Longrightarrow> printFrameList s = Some (map (cell s) as)"
  unfolding printFrameList_def cell_def shape_def by (auto dest: frames_from_dseg)

lemma list_inv_init: "list_inv lru_createFrameList []" "list_inv lfu_createFrameList []"
  by (simp_all add: list_inv_def shape_def lru_createFrameList_def lfu_createFrameList_def)


lemma same_payload_the:
  "same_payload h h' \<Longrightarrow> payload (the (h' a)) = payload (the (h a))"
  by (cases "h a"; cases "h' a") (auto simp: same_payload_def dest: spec [of _ a])

lemma distinct_map_cong:
  "distinct (map f as) \<Longrightarrow> (\<forall>a\<in>set as. g a = f a) \<Longrightarrow> distinct (map g as)"
  by (metis (mono_tags, lifting) map_eq_conv)

subsection \<open>Admitting a page: the miss branch after the new frame is filled in\<close>

lemma admit:
  fixes s :: "'a state"
  assumes inv: "list_inv s as"
    and miss: "\<forall>a\<in>set as. page (cell s a) \<noteq> pg"
    and new: "prev NEW = None" "next NEW = None" "page NEW = pg" "valid NEW"
    and s3: "s3 = s\<lparr>brk := brk s + 1, heap := (heap s)(brk s \<mapsto> NEW)\<rparr>"
    and full: "numFrames s = NUM_FRAMES \<Longrightarrow> as = ys @ v # zs \<and> as' = ys @ zs \<and> R = removeFrame s3 v"
    and room: "numFrames s \<noteq> NUM_FRAMES \<Longrightarrow> as' = as \<and> R = Some s3"
  shows "\<exists>s'. (R \<bind> (\<lambda>s4. insertFrame s4 (brk s))) = Some s' \<and>
           list_inv s' (brk s # as') \<and> payload (cell s' (brk s)) = payload NEW \<and>
           (\<forall>a\<in>set as'. payload (cell s' a) = payload (cell s a)) \<and>
           brk s' = brk s + 1"
proof -
  let ?a = "brk s"
  from inv have sh: "shape s as" and nf: "numFrames s = of_nat (length as)"
    and len: "length as \<le> NUM_FRAMES" and below: "\<forall>a\<in>set as. a < brk s"
    and dp: "distinct (map (\<lambda>a. page (cell s a)) as)" and va: "\<forall>a\<in>set as. valid (cell s a)"
    by (simp_all add: list_inv_def)
  from below have fresh: "?a \<notin> set as" by auto
  have sh3: "shape s3 as"
    using sh fresh by (simp add: shape_def s3 dseg_upd_other del: dseg_Cons)
  have a3: "heap s3 ?a = Some NEW" by (simp add: s3)
  have old3: "heap s3 b = heap s b" if "b \<in> set as" for b
    using that fresh by (auto simp: s3)
  \<comment> \<open>the eviction, when the table is full\<close>
  have "\<exists>s4. R = Some s4 \<and> shape s4 as' \<and> numFrames s4 + 1 = of_nat (length as' + 1) \<and>
          length as' + 1 \<le> NUM_FRAMES \<and> set as' \<subseteq> set as \<and> distinct (map (\<lambda>a. page (cell s a)) as') \<and>
          brk s4 = brk s + 1 \<and> heap s4 ?a = Some NEW \<and>
          (\<forall>b\<in>set as'. payload (the (heap s4 b)) = payload (the (heap s b)))"
  proof (cases "numFrames s = NUM_FRAMES")
    case True
    from full [OF True] have as: "as = ys @ v # zs" "as' = ys @ zs" "R = removeFrame s3 v"
      by simp_all
    from True nf len have l4: "length as = 4"
      using word4_cases [of "length as"] by simp
    from removeFrame_shape [of s3 ys v zs] sh3 as(1)
    obtain s4 where s4: "removeFrame s3 v = Some s4" "shape s4 (ys @ zs)"
      "numFrames s4 = numFrames s3 - 1" "brk s4 = brk s3"
      "same_payload ((heap s3)(v := None)) (heap s4)"
      "\<forall>b. b \<notin> set (ys @ v # zs) \<longrightarrow> heap s4 b = heap s3 b"
      by auto
    from sh as(1) have vn: "v \<notin> set (ys @ zs)"
      by (auto simp: shape_def)
    have "payload (the (heap s4 b)) = payload (the (heap s b))" if "b \<in> set as'" for b
    proof -
      from that vn as have "b \<noteq> v" "b \<in> set as" by auto
      with same_payload_the [OF s4(5), of b] old3 [of b] show ?thesis by simp
    qed
    moreover have "heap s4 ?a = Some NEW"
      using s4(6) fresh as(1) a3 by simp
    moreover have la': "length as' = 3"
      using l4 as by simp
    moreover have "numFrames s4 + 1 = of_nat (length as' + 1)"
      using s4(3) True la' by (simp add: s3)
    moreover have "distinct (map (\<lambda>a. page (cell s a)) as')"
      using dp as by auto
    moreover have "set as' \<subseteq> set as"
      using as by auto
    moreover have "brk s4 = brk s + 1"
      using s4(4) by (simp add: s3)
    moreover have "R = Some s4" "shape s4 as'"
      using s4(1,2) as by simp_all
    ultimately show ?thesis
      by (intro exI [of _ s4]) simp
  next
    case False
    from room [OF False] have as: "as' = as" "R = Some s3" by simp_all
    from False nf len have "length as \<noteq> 4" by auto
    with len have l: "length as' + 1 \<le> 4" using as by simp
    have "numFrames s3 + 1 = of_nat (length as' + 1)"
      using nf as by (simp add: s3)
    moreover have "\<forall>b\<in>set as'. payload (the (heap s3 b)) = payload (the (heap s b))"
      using old3 as by simp
    moreover have "brk s3 = brk s + 1"
      by (simp add: s3)
    moreover have "shape s3 as'" "distinct (map (\<lambda>a. page (cell s a)) as')" "set as' \<subseteq> set as"
      using sh3 dp as by simp_all
    ultimately show ?thesis
      using as(2) l a3 by (intro exI [of _ s3]) simp
  qed
  then obtain s4 where s4: "R = Some s4" "shape s4 as'" "numFrames s4 + 1 = of_nat (length as' + 1)"
    "length as' + 1 \<le> NUM_FRAMES" "set as' \<subseteq> set as" "distinct (map (\<lambda>a. page (cell s a)) as')"
    "brk s4 = brk s + 1" "heap s4 ?a = Some NEW"
    "\<forall>b\<in>set as'. payload (the (heap s4 b)) = payload (the (heap s b))"
    by blast
  from s4(5) fresh have fresh': "?a \<notin> set as'" by auto
  from insertFrame_shape [OF s4(2) fresh' s4(8) new(1,2)]
  obtain s' where s': "insertFrame s4 ?a = Some s'" "shape s' (?a # as')"
    "numFrames s' = numFrames s4 + 1" "brk s' = brk s4" "same_payload (heap s4) (heap s')"
    by blast
  have pa: "payload (cell s' ?a) = payload NEW"
    using same_payload_the [OF s'(5), of ?a] s4(8) by (simp add: cell_def)
  have po: "payload (cell s' b) = payload (cell s b)" if "b \<in> set as'" for b
    using same_payload_the [OF s'(5), of b] s4(9) that by (simp add: cell_def)
  have pg_new: "page (cell s' ?a) = pg" "valid (cell s' ?a)"
    using payload_page [OF pa] payload_valid [OF pa] new by simp_all
  have pgo: "page (cell s' b) = page (cell s b)" "valid (cell s' b) = valid (cell s b)"
    if "b \<in> set as'" for b
    using po [OF that] by (simp_all add: payload_def)
  have "distinct (map (\<lambda>a. page (cell s' a)) as')"
    using s4(6) by (rule distinct_map_cong) (simp add: pgo(1))
  moreover have "pg \<notin> (\<lambda>a. page (cell s' a)) ` set as'"
  proof
    assume "pg \<in> (\<lambda>a. page (cell s' a)) ` set as'"
    then obtain b where "b \<in> set as'" "page (cell s' b) = pg" by auto
    with pgo(1) [of b] s4(5) miss show False by auto
  qed
  moreover have "\<forall>a\<in>set as'. valid (cell s' a)"
    using va s4(5) pgo(2) by auto
  moreover have "\<forall>a\<in>set as'. a < brk s'"
    using below s4(5,7) s'(4) by (auto simp: less_Suc_eq dest!: subsetD)
  moreover have "numFrames s' = of_nat (length (?a # as'))"
    using s'(3) s4(3) by simp
  moreover have "length (?a # as') \<le> NUM_FRAMES" "?a < brk s'"
    using s4(4,7) s'(4) by simp_all
  ultimately have "list_inv s' (?a # as')"
    using s'(2) pg_new unfolding list_inv_def by simp
  moreover have "(R \<bind> (\<lambda>s4. insertFrame s4 (brk s))) = Some s'"
    using s4(1) s'(1) by simp
  moreover have "brk s' = brk s + 1"
    using s'(4) s4(7) by simp
  ultimately show ?thesis
    using pa po by blast
qed


subsection \<open>LRU: one call on a well-formed state\<close>

lemma lru_hit:
  assumes inv: "list_inv s (ys @ t # zs)" and pg: "page (cell s t) = pg"
    and first: "\<forall>y\<in>set ys. page (cell s y) \<noteq> pg"
  shows "\<exists>s'. lru_loadPage s pg = Some s' \<and> list_inv s' (t # ys @ zs) \<and>
           same_payload (heap s) (heap s') \<and> brk s' = brk s \<and> numFrames s' = numFrames s \<and>
           (ys = [] \<longrightarrow> s' = s)"
proof -
  from inv have sh: "shape s (ys @ t # zs)"
    by (simp add: list_inv_def)
  have "findFrame s pg = Some (Some t)"
    using findFrame_shape [OF sh, of pg] find_first [of ys "\<lambda>a. page (cell s a) = pg" t zs]
      pg first by simp
  then have run: "lru_loadPage s pg = moveToHead s t"
    by (simp add: lru_loadPage_def)
  show ?thesis
  proof (cases "ys = []")
    case True
    with sh have "head s = Some t"
      by (auto simp: shape_def)
    with run have "lru_loadPage s pg = Some s"
      by (simp add: moveToHead_at_head)
    with inv True show ?thesis by simp
  next
    case False
    from moveToHead_shape [OF sh False]
    obtain s' where s': "moveToHead s t = Some s'" "shape s' (t # ys @ zs)"
      "numFrames s' = numFrames s" "brk s' = brk s" "same_payload (heap s) (heap s')"
      by blast
    have same: "page (cell s' a) = page (cell s a)" "valid (cell s' a) = valid (cell s a)" for a
      using same_payload_cell [OF s'(5), of a] by (simp_all add: payload_def)
    from inv have "list_inv s' (t # ys @ zs)"
      using s'(2,3,4) unfolding list_inv_def by (auto simp: same)
    with s' run False show ?thesis by simp
  qed
qed

lemma lru_miss:
  assumes inv: "list_inv s as" and miss: "\<forall>a\<in>set as. page (cell s a) \<noteq> pg"
  shows "\<exists>s'. lru_loadPage s pg = Some s' \<and>
           list_inv s' (brk s # (if length as = NUM_FRAMES then butlast as else as)) \<and>
           payload (cell s' (brk s)) = (pg, True, ()) \<and>
           (\<forall>a\<in>set (if length as = NUM_FRAMES then butlast as else as).
              payload (cell s' a) = payload (cell s a)) \<and>
           brk s' = brk s + 1"
proof -
  from inv have sh: "shape s as" and nf: "numFrames s = of_nat (length as)"
    and len: "length as \<le> NUM_FRAMES"
    by (simp_all add: list_inv_def)
  let ?NEW = "\<lparr>page = pg, valid = True, prev = None, next = None\<rparr>"
  let ?s3 = "s\<lparr>brk := brk s + 1, heap := (heap s)(brk s \<mapsto> ?NEW)\<rparr>"
  let ?as' = "if length as = NUM_FRAMES then butlast as else as"
  let ?R = "if numFrames s = NUM_FRAMES then removeFrame ?s3 (last as) else Some ?s3"
  have full: "length as = NUM_FRAMES \<longleftrightarrow> numFrames s = NUM_FRAMES"
    using nf len word4_cases [of "length as"] by simp
  have "findFrame s pg = Some None"
    using findFrame_shape [OF sh, of pg] miss by (simp add: find_None_iff)
  moreover have "tail s = Some (last as)" if "numFrames s = NUM_FRAMES"
    using sh that full by (auto simp: shape_def lastp_def)
  ultimately have run: "lru_loadPage s pg = (?R \<bind> (\<lambda>s4. insertFrame s4 (brk s)))"
    by (simp add: lru_loadPage_def lru_createFrame_def store_def)
  have "\<exists>s'. (?R \<bind> (\<lambda>s4. insertFrame s4 (brk s))) = Some s' \<and>
           list_inv s' (brk s # ?as') \<and> payload (cell s' (brk s)) = payload ?NEW \<and>
           (\<forall>a\<in>set ?as'. payload (cell s' a) = payload (cell s a)) \<and>
           brk s' = brk s + 1"
  proof (rule admit [OF inv miss, where ys = "butlast as" and v = "last as" and zs = "[]"])
    assume "numFrames s = NUM_FRAMES"
    with full have "as \<noteq> []" by auto
    with full \<open>numFrames s = NUM_FRAMES\<close>
    show "as = butlast as @ [last as] \<and> ?as' = butlast as @ [] \<and> ?R = removeFrame ?s3 (last as)"
      by simp
  next
    assume "numFrames s \<noteq> NUM_FRAMES"
    with full show "?as' = as \<and> ?R = Some ?s3" by simp
  qed simp_all
  with run show ?thesis by (simp add: payload_def)
qed


subsection \<open>LFU: the victim scan\<close>

text \<open>
  One step of the scan on addresses, for a frequency reading \<open>f\<close>: the candidate \<open>l\<close> gives
  way to the current cell \<open>c\<close> only when \<open>c\<close> is strictly less frequent.
\<close>

definition lfu_pick :: "(nat \<Rightarrow> int) \<Rightarrow> nat \<Rightarrow> nat \<Rightarrow> nat" where
  "lfu_pick f l c = (if f c < f l then c else l)"

lemma lfu_scan_dseg:
  "dseg h q p as None \<Longrightarrow> h l = Some L \<Longrightarrow>
   lfu_scan h (Some l) p =
     Some (Some (foldl (lfu_pick (\<lambda>a. sint (frequency (the (h a))))) l as))"
proof (induction as arbitrary: q p l L)
  case Nil
  then show ?case by (subst lfu_scan.simps) simp
next
  case (Cons a as)
  from Cons.prems obtain A where A: "p = Some a" "h a = Some A" "dseg h (Some a) (next A) as None"
    by auto
  let ?l' = "lfu_pick (\<lambda>a. sint (frequency (the (h a)))) l a"
  have "\<exists>L'. h ?l' = Some L'"
    using A(2) Cons.prems(2) by (simp add: lfu_pick_def)
  then obtain L' where "h ?l' = Some L'" ..
  from Cons.IH [OF A(3) this]
  have "lfu_scan h (Some ?l') (next A) =
      Some (Some (foldl (lfu_pick (\<lambda>a. sint (frequency (the (h a))))) l (a # as)))"
    by simp
  moreover have "lfu_scan h (Some l) p = lfu_scan h (Some ?l') (next A)"
    using A(1,2) Cons.prems(2)
    by (subst lfu_scan.simps, cases "sint (frequency A) < sint (frequency L)")
      (simp_all add: lfu_pick_def)
  ultimately show ?case by simp
qed

lemma lfu_pick_first_min:
  "foldl (lfu_pick f) l as = l \<and> (\<forall>a\<in>set as. f l \<le> f a) \<or>
   (\<exists>ys zs. as = ys @ foldl (lfu_pick f) l as # zs \<and> f (foldl (lfu_pick f) l as) < f l \<and>
      (\<forall>y\<in>set ys. f (foldl (lfu_pick f) l as) < f y) \<and>
      (\<forall>z\<in>set zs. f (foldl (lfu_pick f) l as) \<le> f z))"
proof (induction as arbitrary: l)
  case Nil
  then show ?case by simp
next
  case (Cons a as)
  let ?l' = "lfu_pick f l a"
  let ?v = "foldl (lfu_pick f) ?l' as"
  have v: "foldl (lfu_pick f) l (a # as) = ?v" by simp
  from Cons.IH [of ?l'] show ?case
  proof (elim disjE conjE exE)
    assume e: "?v = ?l'" and ge: "\<forall>a\<in>set as. f ?l' \<le> f a"
    show ?thesis
    proof (cases "f a < f l")
      case True
      then have "?l' = a" by (simp add: lfu_pick_def)
      with e ge True have "a # as = [] @ ?v # as \<and> f ?v < f l \<and>
          (\<forall>y\<in>set []. f ?v < f y) \<and> (\<forall>z\<in>set as. f ?v \<le> f z)"
        by simp
      then show ?thesis unfolding v by blast
    next
      case False
      then have "?l' = l" by (simp add: lfu_pick_def)
      with e ge False show ?thesis unfolding v by auto
    qed
  next
    fix ys zs
    assume as: "as = ys @ ?v # zs" and lt: "f ?v < f ?l'"
      and ys: "\<forall>y\<in>set ys. f ?v < f y" and zs: "\<forall>z\<in>set zs. f ?v \<le> f z"
    have "f ?l' \<le> f l" "f ?l' \<le> f a"
      by (simp_all add: lfu_pick_def)
    with lt have "f ?v < f l" "f ?v < f a" by simp_all
    with as ys zs have "a # as = (a # ys) @ ?v # zs \<and> f ?v < f l \<and>
        (\<forall>y\<in>set (a # ys). f ?v < f y) \<and> (\<forall>z\<in>set zs. f ?v \<le> f z)"
      by simp
    then show ?thesis unfolding v by blast
  qed
qed

lemma lfu_victim_first_min:
  assumes "as \<noteq> []" and v: "v = foldl (lfu_pick f) (hd as) as"
  shows "\<exists>ys zs. as = ys @ v # zs \<and> (\<forall>y\<in>set ys. f v < f y) \<and> (\<forall>z\<in>set zs. f v \<le> f z)"
proof -
  from assms(1) obtain a0 rest where as: "as = a0 # rest"
    by (cases as) auto
  with v have v: "v = foldl (lfu_pick f) a0 rest"
    by (simp add: lfu_pick_def)
  from lfu_pick_first_min [of f a0 rest, folded v] show ?thesis
  proof (elim disjE conjE exE)
    assume "v = a0" "\<forall>a\<in>set rest. f a0 \<le> f a"
    with as have "as = [] @ v # rest \<and> (\<forall>y\<in>set []. f v < f y) \<and> (\<forall>z\<in>set rest. f v \<le> f z)"
      by simp
    then show ?thesis by blast
  next
    fix ys zs
    assume "rest = ys @ v # zs" "f v < f a0" "\<forall>y\<in>set ys. f v < f y" "\<forall>z\<in>set zs. f v \<le> f z"
    with as have "as = (a0 # ys) @ v # zs \<and> (\<forall>y\<in>set (a0 # ys). f v < f y) \<and>
        (\<forall>z\<in>set zs. f v \<le> f z)"
      by simp
    then show ?thesis by blast
  qed
qed


subsection \<open>LFU: one call on a well-formed state\<close>

lemma payload_frequency:
  fixes F G :: lfu_Frame
  shows "payload F = payload G \<Longrightarrow> frequency F = frequency G"
  by (cases F; cases G) (simp add: payload_def)

lemma lfu_hit:
  assumes inv: "list_inv s (ys @ t # zs)" and pg: "page (cell s t) = pg"
    and first: "\<forall>y\<in>set ys. page (cell s y) \<noteq> pg"
  shows "lfu_loadPage s pg =
           Some (s\<lparr>heap := (heap s)(t \<mapsto> (cell s t)\<lparr>frequency := frequency (cell s t) + 1\<rparr>)\<rparr>) \<and>
         list_inv (s\<lparr>heap := (heap s)(t \<mapsto> (cell s t)\<lparr>frequency := frequency (cell s t) + 1\<rparr>)\<rparr>)
           (ys @ t # zs)"
proof -
  let ?s' = "s\<lparr>heap := (heap s)(t \<mapsto> (cell s t)\<lparr>frequency := frequency (cell s t) + 1\<rparr>)\<rparr>"
  from inv have sh: "shape s (ys @ t # zs)"
    by (simp add: list_inv_def)
  then obtain T where T: "heap s t = Some T"
    using dseg_allocated [of "heap s" None "head s" "ys @ t # zs" None t]
    by (auto simp: shape_def simp del: dseg_Cons)
  have "findFrame s pg = Some (Some t)"
    using findFrame_shape [OF sh, of pg] find_first [of ys "\<lambda>a. page (cell s a) = pg" t zs]
      pg first by simp
  with T have run: "lfu_loadPage s pg = Some ?s'"
    by (simp add: lfu_loadPage_def store_def cell_def)
  have sh': "shape ?s' (ys @ t # zs)"
    using sh T by (simp add: shape_def cell_def dseg_upd_payload del: dseg_Cons)
  have same: "page (cell ?s' a) = page (cell s a)" "valid (cell ?s' a) = valid (cell s a)" for a
    using T by (simp_all add: cell_def)
  from inv sh' have "list_inv ?s' (ys @ t # zs)"
    unfolding list_inv_def by (simp only: same) simp
  with run show ?thesis by simp
qed

lemma lfu_miss:
  assumes inv: "list_inv s as" and miss: "\<forall>a\<in>set as. page (cell s a) \<noteq> pg"
  shows "\<exists>s' as'. lfu_loadPage s pg = Some s' \<and> list_inv s' (brk s # as') \<and>
           payload (cell s' (brk s)) = (pg, True, \<lparr>frequency = 1\<rparr>) \<and>
           (\<forall>a\<in>set as'. payload (cell s' a) = payload (cell s a)) \<and>
           brk s' = brk s + 1 \<and>
           (if length as = NUM_FRAMES then
              \<exists>ys v zs. as = ys @ v # zs \<and> as' = ys @ zs \<and>
                (\<forall>y\<in>set ys. sint (frequency (cell s v)) < sint (frequency (cell s y))) \<and>
                (\<forall>z\<in>set zs. sint (frequency (cell s v)) \<le> sint (frequency (cell s z)))
            else as' = as)"
proof -
  from inv have sh: "shape s as" and nf: "numFrames s = of_nat (length as)"
    and len: "length as \<le> NUM_FRAMES" and below: "\<forall>a\<in>set as. a < brk s"
    by (simp_all add: list_inv_def)
  define NEW :: lfu_Frame
    where "NEW = \<lparr>page = pg, valid = True, prev = None, next = None, frequency = 1\<rparr>"
  define h3 where "h3 = (heap s)(brk s \<mapsto> NEW)"
  define s3 where "s3 = s\<lparr>brk := brk s + 1, heap := h3\<rparr>"
  have new: "prev NEW = None" "next NEW = None" "page NEW = pg" "valid NEW"
    "payload NEW = (pg, True, \<lparr>frequency = 1\<rparr>)"
    by (simp_all add: NEW_def payload_def)
  have s3: "s3 = s\<lparr>brk := brk s + 1, heap := (heap s)(brk s \<mapsto> NEW)\<rparr>"
    by (simp add: s3_def h3_def)
  have full: "length as = NUM_FRAMES \<longleftrightarrow> numFrames s = NUM_FRAMES"
    using nf len word4_cases [of "length as"] by simp
  have ff: "findFrame s pg = Some None"
    using findFrame_shape [OF sh, of pg] miss by (simp add: find_None_iff)
  from below have fresh: "brk s \<notin> set as" by auto
  have run: "lfu_loadPage s pg =
      ((if numFrames s = NUM_FRAMES then
          do { victim \<leftarrow> lfu_scan h3 (head s) (head s);
               lfuFrame \<leftarrow> victim;
               removeFrame s3 lfuFrame }
        else Some s3) \<bind> (\<lambda>s5. insertFrame s5 (brk s)))"
    unfolding s3_def h3_def NEW_def using ff
    by (simp add: lfu_loadPage_def lfu_createFrame_def store_def)
  show ?thesis
  proof (cases "numFrames s = NUM_FRAMES")
    case True
    with full have ne: "as \<noteq> []" by auto
    let ?f3 = "\<lambda>a. sint (frequency (the (h3 a)))"
    define v where "v = foldl (lfu_pick ?f3) (hd as) as"
    have d3: "dseg h3 None (head s) as None"
      using sh fresh by (simp add: h3_def shape_def dseg_upd_other del: dseg_Cons)
    from ne d3 have hd: "head s = Some (hd as)"
      by (cases as) auto
    from ne d3 obtain L where L: "h3 (hd as) = Some L"
      using dseg_allocated [OF d3, of "hd as"] by auto
    have scan: "lfu_scan h3 (head s) (head s) = Some (Some v)"
      using lfu_scan_dseg [OF d3 L] hd by (simp add: v_def)
    have run': "lfu_loadPage s pg = (removeFrame s3 v \<bind> (\<lambda>s4. insertFrame s4 (brk s)))"
      using run True scan by simp
    from lfu_victim_first_min [OF ne v_def]
    obtain ys zs where split: "as = ys @ v # zs" "\<forall>y\<in>set ys. ?f3 v < ?f3 y"
      "\<forall>z\<in>set zs. ?f3 v \<le> ?f3 z"
      by blast
    have f3: "?f3 a = sint (frequency (cell s a))" if "a \<in> set as" for a
      using that fresh by (auto simp: cell_def h3_def)
    have mins: "\<forall>y\<in>set ys. sint (frequency (cell s v)) < sint (frequency (cell s y))"
      "\<forall>z\<in>set zs. sint (frequency (cell s v)) \<le> sint (frequency (cell s z))"
      using split f3 by auto
    have "\<exists>s'. (removeFrame s3 v \<bind> (\<lambda>s4. insertFrame s4 (brk s))) = Some s' \<and>
           list_inv s' (brk s # ys @ zs) \<and> payload (cell s' (brk s)) = payload NEW \<and>
           (\<forall>a\<in>set (ys @ zs). payload (cell s' a) = payload (cell s a)) \<and>
           brk s' = brk s + 1"
      using True split(1)
      by (intro admit [OF inv miss new(1-4) s3, where ys = ys and v = v and zs = zs]) simp_all
    then obtain s' where s': "(removeFrame s3 v \<bind> (\<lambda>s4. insertFrame s4 (brk s))) = Some s'"
      "list_inv s' (brk s # ys @ zs)" "payload (cell s' (brk s)) = payload NEW"
      "\<forall>a\<in>set (ys @ zs). payload (cell s' a) = payload (cell s a)" "brk s' = brk s + 1"
      by blast
    from True full have l4: "length as = NUM_FRAMES" by simp
    have "\<exists>ys' v' zs'. as = ys' @ v' # zs' \<and> ys @ zs = ys' @ zs' \<and>
        (\<forall>y\<in>set ys'. sint (frequency (cell s v')) < sint (frequency (cell s y))) \<and>
        (\<forall>z\<in>set zs'. sint (frequency (cell s v')) \<le> sint (frequency (cell s z)))"
      using split(1) mins by blast
    with s' run' l4 new(5) show ?thesis
      by (intro exI [of _ s'] exI [of _ "ys @ zs"]) simp
  next
    case False
    with full have l4: "length as \<noteq> NUM_FRAMES" by simp
    have run': "lfu_loadPage s pg = (Some s3 \<bind> (\<lambda>s4. insertFrame s4 (brk s)))"
      using run False by simp
    have "\<exists>s'. (Some s3 \<bind> (\<lambda>s4. insertFrame s4 (brk s))) = Some s' \<and>
           list_inv s' (brk s # as) \<and> payload (cell s' (brk s)) = payload NEW \<and>
           (\<forall>a\<in>set as. payload (cell s' a) = payload (cell s a)) \<and>
           brk s' = brk s + 1"
      using False
      by (intro admit [OF inv miss new(1-4) s3, where ys = "[]" and v = 0 and zs = "[]"]) simp_all
    with run' l4 new(5) show ?thesis
      by auto
  qed
qed

subsection \<open>Every call keeps the invariant\<close>

lemma resident_cases:
  obtains (miss) "\<forall>a\<in>set as. P a \<noteq> pg"
  | (hit) ys t zs where "as = ys @ t # zs" "P t = pg" "\<forall>y\<in>set ys. P y \<noteq> pg"
proof (cases "List.find (\<lambda>a. P a = pg) as")
  case None
  then show ?thesis by (intro miss) (simp add: find_None_iff)
next
  case (Some t)
  from find_SomeD [OF this] show ?thesis by (auto intro: hit)
qed

lemma lru_loadPage_inv:
  assumes "list_inv s as"
  shows "\<exists>s' as'. lru_loadPage s pg = Some s' \<and> list_inv s' as'"
proof (cases rule: resident_cases [of as "\<lambda>a. page (cell s a)" pg])
  case miss
  from lru_miss [OF assms miss] show ?thesis by blast
next
  case (hit ys t zs)
  from lru_hit [OF assms [unfolded hit(1)] hit(2,3)] show ?thesis by blast
qed

lemma lfu_loadPage_inv:
  assumes "list_inv s as"
  shows "\<exists>s' as'. lfu_loadPage s pg = Some s' \<and> list_inv s' as'"
proof (cases rule: resident_cases [of as "\<lambda>a. page (cell s a)" pg])
  case miss
  from lfu_miss [OF assms miss] show ?thesis by blast
next
  case (hit ys t zs)
  from lfu_hit [OF assms [unfolded hit(1)] hit(2,3)] show ?thesis by blast
qed

lemma lru_run_inv:
  "list_inv s as \<Longrightarrow> \<exists>s' as'. lru_run s pgs = Some s' \<and> list_inv s' as'"
proof (induction pgs arbitrary: s as)
  case Nil
  then show ?case by auto
next
  case (Cons pg pgs)
  from lru_loadPage_inv [OF Cons.prems, of pg]
  obtain s1 as1 where s1: "lru_loadPage s pg = Some s1" "list_inv s1 as1" by blast
  from Cons.IH [OF s1(2)] s1(1) show ?case by simp
qed

lemma lfu_run_inv:
  "list_inv s as \<Longrightarrow> \<exists>s' as'. lfu_run s pgs = Some s' \<and> list_inv s' as'"
proof (induction pgs arbitrary: s as)
  case Nil
  then show ?case by auto
next
  case (Cons pg pgs)
  from lfu_loadPage_inv [OF Cons.prems, of pg]
  obtain s1 as1 where s1: "lfu_loadPage s pg = Some s1" "list_inv s1 as1" by blast
  from Cons.IH [OF s1(2)] s1(1) show ?case by simp
qed

lemma lru_reachable_inv: "\<exists>s as. lru_run lru_createFrameList pgs = Some s \<and> list_inv s as"
  using lru_run_inv [OF list_inv_init(1)] .

lemma lfu_reachable_inv: "\<exists>s as. lfu_run lfu_createFrameList pgs = Some s \<and> list_inv s as"
  using lfu_run_inv [OF list_inv_init(2)] .

subsection \<open>What printFrameList shows of a well-formed state\<close>

lemma lru_snapshot_inv:
  "list_inv s as \<Longrightarrow> lru_snapshot s = Some (map (\<lambda>a. (page (cell s a), True)) as)"
  using printFrameList_shape [of s as] by (simp add: lru_snapshot_def list_inv_def)

lemma lfu_snapshot_inv:
  "list_inv s as \<Longrightarrow>
   lfu_snapshot s = Some (map (\<lambda>a. (page (cell s a), frequency (cell s a), True)) as)"
  using printFrameList_shape [of s as] by (simp add: lfu_snapshot_def list_inv_def)

lemma unat_numFrames: "list_inv s as \<Longrightarrow> unat (numFrames s) = length as"
  by (simp add: list_inv_def unat_of_nat)

lemma snapshot_facts:
  assumes "list_inv s as" and v: "v = map (\<lambda>a. (page (cell s a), x a)) as"
  shows "length v \<le> NUM_FRAMES" "distinct (map fst v)" "unat (numFrames s) = length v"
  using assms unat_numFrames [OF assms(1)] by (simp_all add: list_inv_def comp_def)


subsection \<open>LRU: one call, as printFrameList shows it\<close>

lemma resident_in_snapshot:
  "pg \<in> fst ` set (map (\<lambda>a. (P a, x a)) as) \<longleftrightarrow> (\<exists>a\<in>set as. P a = pg)"
  by (auto simp: image_iff)

lemma lru_step_hit:
  assumes inv: "list_inv s as" and v: "lru_snapshot s = Some v" and hit: "pg \<in> fst ` set v"
  shows "\<exists>s' as'. lru_loadPage s pg = Some s' \<and> list_inv s' as' \<and>
           lru_snapshot s' = Some ((pg, True) # remove1 (pg, True) v) \<and>
           numFrames s' = numFrames s \<and> brk s' = brk s \<and>
           same_payload (heap s) (heap s') \<and> lru_loadPage s' pg = Some s'"
proof -
  let ?f = "\<lambda>a. (page (cell s a), True)"
  from lru_snapshot_inv [OF inv] v have v: "v = map ?f as" by simp
  with hit have "\<exists>a\<in>set as. page (cell s a) = pg"
    by (simp only: resident_in_snapshot)
  then obtain ys t zs where split: "as = ys @ t # zs" "page (cell s t) = pg"
    "\<forall>y\<in>set ys. page (cell s y) \<noteq> pg"
    by (cases rule: resident_cases [of as "\<lambda>a. page (cell s a)" pg]) auto
  from lru_hit [OF inv [unfolded split(1)] split(2,3)]
  obtain s' where s': "lru_loadPage s pg = Some s'" "list_inv s' (t # ys @ zs)"
    "same_payload (heap s) (heap s')" "brk s' = brk s" "numFrames s' = numFrames s"
    by blast
  have same: "page (cell s' a) = page (cell s a)" for a
    using same_payload_cell [OF s'(3), of a] by (simp add: payload_def)
  have "(pg, True) \<notin> set (map ?f ys)"
    using split(3) by auto
  then have "remove1 (pg, True) v = map ?f ys @ map ?f zs"
    unfolding v split(1) using split(2) by (simp add: remove1_append)
  with lru_snapshot_inv [OF s'(2)] split(2)
  have snap: "lru_snapshot s' = Some ((pg, True) # remove1 (pg, True) v)"
    by (simp add: same)
  from split(2) have "page (cell s' t) = pg" by (simp add: same)
  from lru_hit [of s' "[]" t "ys @ zs" pg] s'(2) this
  have "lru_loadPage s' pg = Some s'" by auto
  with s' snap show ?thesis by blast
qed

lemma lru_step_miss:
  assumes inv: "list_inv s as" and v: "lru_snapshot s = Some v" and miss: "pg \<notin> fst ` set v"
  shows "\<exists>s' as'. lru_loadPage s pg = Some s' \<and> list_inv s' as' \<and>
           lru_snapshot s' =
             Some ((pg, True) # (if length v = NUM_FRAMES then butlast v else v))"
proof -
  let ?f = "\<lambda>a. (page (cell s a), True)"
  let ?as' = "if length as = NUM_FRAMES then butlast as else as"
  from lru_snapshot_inv [OF inv] v have v: "v = map ?f as" by simp
  with miss have "\<forall>a\<in>set as. page (cell s a) \<noteq> pg"
    by (simp only: resident_in_snapshot) simp
  from lru_miss [OF inv this]
  obtain s' where s': "lru_loadPage s pg = Some s'" "list_inv s' (brk s # ?as')"
    "payload (cell s' (brk s)) = (pg, True, ())"
    "\<forall>a\<in>set ?as'. payload (cell s' a) = payload (cell s a)"
    by blast
  from s'(3) have new: "page (cell s' (brk s)) = pg" by (simp add: payload_def)
  from s'(4) have "map (\<lambda>a. (page (cell s' a), True)) ?as' = map ?f ?as'"
    by (intro map_cong refl) (simp add: payload_def)
  also have "\<dots> = (if length v = NUM_FRAMES then butlast v else v)"
    by (simp add: v map_butlast)
  finally have "lru_snapshot s' = Some ((pg, True) # (if length v = NUM_FRAMES then butlast v else v))"
    using lru_snapshot_inv [OF s'(2)] new by simp
  with s'(1,2) show ?thesis by blast
qed

subsection \<open>LFU: one call, as printFrameList shows it\<close>

lemma lfu_step_hit:
  assumes inv: "list_inv s as" and v: "lfu_snapshot s = Some v" and hit: "pg \<in> fst ` set v"
  shows "\<exists>t T. heap s t = Some T \<and> page T = pg \<and>
           lfu_loadPage s pg =
             Some (s\<lparr>heap := (heap s)(t \<mapsto> T\<lparr>frequency := frequency T + 1\<rparr>)\<rparr>) \<and>
           list_inv (s\<lparr>heap := (heap s)(t \<mapsto> T\<lparr>frequency := frequency T + 1\<rparr>)\<rparr>) as \<and>
           lfu_snapshot (s\<lparr>heap := (heap s)(t \<mapsto> T\<lparr>frequency := frequency T + 1\<rparr>)\<rparr>) =
             Some (map (\<lambda>(p, f, b). if p = pg then (p, f + 1, b) else (p, f, b)) v)"
proof -
  let ?g = "\<lambda>a. (page (cell s a), frequency (cell s a), True)"
  from lfu_snapshot_inv [OF inv] v have v: "v = map ?g as" by simp
  with hit have "\<exists>a\<in>set as. page (cell s a) = pg"
    by (simp only: resident_in_snapshot)
  then obtain ys t zs where split: "as = ys @ t # zs" "page (cell s t) = pg"
    "\<forall>y\<in>set ys. page (cell s y) \<noteq> pg"
    by (cases rule: resident_cases [of as "\<lambda>a. page (cell s a)" pg]) auto
  from inv have "shape s as" by (simp add: list_inv_def)
  then obtain T where T: "heap s t = Some T"
    using dseg_allocated [of "heap s" None "head s" as None t] split(1)
    by (auto simp: shape_def simp del: dseg_Cons)
  then have ct: "cell s t = T" by (simp add: cell_def)
  let ?s' = "s\<lparr>heap := (heap s)(t \<mapsto> T\<lparr>frequency := frequency T + 1\<rparr>)\<rparr>"
  from lfu_hit [OF inv [unfolded split(1)] split(2,3)]
  have s': "lfu_loadPage s pg = Some ?s'" "list_inv ?s' as"
    by (simp_all add: ct split(1))
  from inv have "distinct (map (\<lambda>a. page (cell s a)) as)"
    by (simp add: list_inv_def)
  with split(1,2) have other: "page (cell s a) \<noteq> pg" if "a \<in> set as" "a \<noteq> t" for a
    using that by (auto simp: image_iff)
  have "(page (cell ?s' a), frequency (cell ?s' a), True) =
      (case ?g a of (p, f, b) \<Rightarrow> if p = pg then (p, f + 1, b) else (p, f, b))"
    if "a \<in> set as" for a
    using other [OF that] split(2) ct T by (cases "a = t") (simp_all add: cell_def)
  then have "map (\<lambda>a. (page (cell ?s' a), frequency (cell ?s' a), True)) as =
      map (\<lambda>(p, f, b). if p = pg then (p, f + 1, b) else (p, f, b)) v"
    unfolding v map_map comp_def by (intro map_cong refl)
  with lfu_snapshot_inv [OF s'(2)] s' T split(2) ct show ?thesis
    by (intro exI [of _ t] exI [of _ T]) simp
qed

lemma lfu_step_miss:
  assumes inv: "list_inv s as" and v: "lfu_snapshot s = Some v" and miss: "pg \<notin> fst ` set v"
  shows "\<exists>s' as'. lfu_loadPage s pg = Some s' \<and> list_inv s' as' \<and>
           (if length v = NUM_FRAMES then
              \<exists>ys x zs. v = ys @ x # zs \<and>
                (\<forall>y\<in>set ys. sint (fst (snd x)) < sint (fst (snd y))) \<and>
                (\<forall>z\<in>set zs. sint (fst (snd x)) \<le> sint (fst (snd z))) \<and>
                lfu_snapshot s' = Some ((pg, 1, True) # ys @ zs)
            else lfu_snapshot s' = Some ((pg, 1, True) # v))"
proof -
  let ?g = "\<lambda>a. (page (cell s a), frequency (cell s a), True)"
  from lfu_snapshot_inv [OF inv] v have v: "v = map ?g as" by simp
  with miss have "\<forall>a\<in>set as. page (cell s a) \<noteq> pg"
    by (simp only: resident_in_snapshot) simp
  from lfu_miss [OF inv this]
  obtain s' as' where s': "lfu_loadPage s pg = Some s'" "list_inv s' (brk s # as')"
    "payload (cell s' (brk s)) = (pg, True, \<lparr>frequency = 1\<rparr>)"
    "\<forall>a\<in>set as'. payload (cell s' a) = payload (cell s a)"
    and victim: "if length as = NUM_FRAMES then
              \<exists>ys v zs. as = ys @ v # zs \<and> as' = ys @ zs \<and>
                (\<forall>y\<in>set ys. sint (frequency (cell s v)) < sint (frequency (cell s y))) \<and>
                (\<forall>z\<in>set zs. sint (frequency (cell s v)) \<le> sint (frequency (cell s z)))
            else as' = as"
    by blast
  have "payload (cell s' (brk s)) =
      payload \<lparr>page = pg, valid = True, prev = None, next = None, frequency = 1\<rparr>"
    using s'(3) by (simp add: payload_def)
  then have new: "page (cell s' (brk s)) = pg" "frequency (cell s' (brk s)) = 1"
    using payload_page payload_frequency by fastforce+
  have "map (\<lambda>a. (page (cell s' a), frequency (cell s' a), True)) as' = map ?g as'"
    using s'(4) by (intro map_cong refl) (auto dest: payload_page payload_frequency)
  with lfu_snapshot_inv [OF s'(2)] new
  have snap: "lfu_snapshot s' = Some ((pg, 1, True) # map ?g as')"
    by simp
  show ?thesis
  proof (cases "length as = NUM_FRAMES")
    case True
    with victim obtain ys x zs where x: "as = ys @ x # zs" "as' = ys @ zs"
      "\<forall>y\<in>set ys. sint (frequency (cell s x)) < sint (frequency (cell s y))"
      "\<forall>z\<in>set zs. sint (frequency (cell s x)) \<le> sint (frequency (cell s z))"
      by auto
    have "v = map ?g ys @ ?g x # map ?g zs \<and>
        (\<forall>y\<in>set (map ?g ys). sint (fst (snd (?g x))) < sint (fst (snd y))) \<and>
        (\<forall>z\<in>set (map ?g zs). sint (fst (snd (?g x))) \<le> sint (fst (snd z))) \<and>
        lfu_snapshot s' = Some ((pg, 1, True) # map ?g ys @ map ?g zs)"
      using x snap by (simp add: v)
    then have "\<exists>ys x zs. v = ys @ x # zs \<and>
                (\<forall>y\<in>set ys. sint (fst (snd x)) < sint (fst (snd y))) \<and>
                (\<forall>z\<in>set zs. sint (fst (snd x)) \<le> sint (fst (snd z))) \<and>
                lfu_snapshot s' = Some ((pg, 1, True) # ys @ zs)"
      by blast
    moreover from True have "length v = NUM_FRAMES" by (simp add: v)
    ultimately show ?thesis using s'(1,2) by auto
  next
    case False
    with victim have "as' = as" by simp
    moreover from False have "length v \<noteq> NUM_FRAMES" by (simp add: v)
    ultimately show ?thesis using s'(1,2) snap by (auto simp: v)
  qed
qed


section \<open>Clock: residency\<close>

text \<open>An empty slot still holds the page \<open>-1\<close> that \<^verbatim>\<open>createFrameList\<close> wrote.\<close>

definition clock_marked :: "clock_FrameList \<Rightarrow> bool" where
  "clock_marked s \<longleftrightarrow>
     (\<forall>i<NUM_FRAMES. \<not> valid_c (frames s ! i) \<longrightarrow> page_c (frames s ! i) = - 1)"

lemma distinct_filter_index:
  "(\<forall>i<length xs. \<forall>j<length xs. P (xs ! i) \<and> f (xs ! i) = f (xs ! j) \<longrightarrow> i = j) \<Longrightarrow>
   distinct (map f (filter P xs))"
proof (induction xs)
  case Nil
  then show ?case by simp
next
  case (Cons x xs)
  have "\<forall>i<length xs. \<forall>j<length xs. P (xs ! i) \<and> f (xs ! i) = f (xs ! j) \<longrightarrow> i = j"
  proof (intro allI impI)
    fix i j assume "i < length xs" "j < length xs" "P (xs ! i) \<and> f (xs ! i) = f (xs ! j)"
    with Cons.prems [rule_format, of "Suc i" "Suc j"] show "i = j" by simp
  qed
  then have d: "distinct (map f (filter P xs))" by (rule Cons.IH)
  have "f x \<notin> f ` {y \<in> set xs. P y}" if "P x"
  proof
    assume "f x \<in> f ` {y \<in> set xs. P y}"
    then obtain j where "j < length xs" "f (xs ! j) = f x"
      by (auto simp: in_set_conv_nth)
    with Cons.prems [rule_format, of 0 "Suc j"] that show False by simp
  qed
  with d show ?case by simp
qed

lemma clock_unique_distinct:
  "clock_inv s \<Longrightarrow> distinct (clock_resident s)"
  unfolding clock_resident_def
  by (rule distinct_filter_index) (auto simp: clock_inv_def clock_unique_def hand_in_bounds_def)

lemma clock_resident_iff:
  "length (frames s) = NUM_FRAMES \<Longrightarrow>
   pg \<in> set (clock_resident s) \<longleftrightarrow>
     (\<exists>i<NUM_FRAMES. valid_c (frames s ! i) \<and> page_c (frames s ! i) = pg)"
  by (auto simp: clock_resident_def in_set_conv_nth image_iff)

lemma clock_marked_init: "clock_marked clock_createFrameList"
  by (simp add: clock_marked_def clock_createFrameList_def)

lemma clock_loadPage_marked:
  assumes inv: "clock_inv s" and m: "clock_marked s"
  shows "\<exists>s'. clock_loadPage s pg = Some s' \<and> clock_inv s' \<and> clock_marked s' \<and>
           (pg \<noteq> - 1 \<longrightarrow> pg \<in> set (clock_resident s'))"
proof (cases "clock_findFrame s pg = - 1")
  case True
  from clock_loadPage_miss [OF inv True]
  obtain s' h where s': "clock_loadPage s pg = Some s'" "h < NUM_FRAMES"
    "map page_c (frames s') = (map page_c (frames s))[h := pg]"
    "map valid_c (frames s') = (map valid_c (frames s))[h := True]" "clock_inv s'"
    by blast
  from inv s'(5) have len: "length (frames s) = NUM_FRAMES" "length (frames s') = NUM_FRAMES"
    by (simp_all add: clock_inv_def hand_in_bounds_def)
  have pg': "page_c (frames s' ! i) = (if i = h then pg else page_c (frames s ! i))"
    if "i < NUM_FRAMES" for i
    using nth_of_map_eq [OF s'(3), of i] that len by (simp add: nth_list_update)
  have vd': "valid_c (frames s' ! i) = (if i = h then True else valid_c (frames s ! i))"
    if "i < NUM_FRAMES" for i
    using nth_of_map_eq [OF s'(4), of i] that len by (simp add: nth_list_update)
  have "clock_marked s'"
    using m by (auto simp: clock_marked_def pg' vd')
  moreover have "pg \<in> set (clock_resident s')"
    using s'(2) pg' [of h] vd' [of h] by (auto simp: clock_resident_iff [OF len(2)])
  ultimately show ?thesis using s' by blast
next
  case False
  from clock_loadPage_hit [OF inv False]
  obtain r where r: "r < NUM_FRAMES" "page_c (frames s ! r) = pg"
    "clock_loadPage s pg =
       Some (s\<lparr>frames := (frames s)[r := (frames s ! r)\<lparr>reference := True\<rparr>]\<rparr>)"
    "clock_inv (s\<lparr>frames := (frames s)[r := (frames s ! r)\<lparr>reference := True\<rparr>]\<rparr>)"
    by blast
  let ?fs = "(frames s)[r := (frames s ! r)\<lparr>reference := True\<rparr>]"
  from inv have len: "length (frames s) = NUM_FRAMES"
    by (simp add: clock_inv_def hand_in_bounds_def)
  have same: "page_c (?fs ! i) = page_c (frames s ! i)"
      "valid_c (?fs ! i) = valid_c (frames s ! i)" if "i < NUM_FRAMES" for i
    using len that by (cases "i = r"; simp)+
  have "clock_marked (s\<lparr>frames := ?fs\<rparr>)"
    using m by (auto simp: clock_marked_def same)
  moreover have "pg \<in> set (clock_resident (s\<lparr>frames := ?fs\<rparr>))" if "pg \<noteq> - 1"
  proof -
    from m r(1,2) that have "valid_c (frames s ! r)"
      by (auto simp: clock_marked_def)
    with r(1,2) len show ?thesis
      by (subst clock_resident_iff) (auto simp: same intro!: exI [of _ r])
  qed
  ultimately show ?thesis using r by blast
qed

lemma clock_run_marked:
  "clock_inv s \<Longrightarrow> clock_marked s \<Longrightarrow>
   \<exists>s'. clock_run s pgs = Some s' \<and> clock_inv s' \<and> clock_marked s'"
proof (induction pgs arbitrary: s)
  case Nil
  then show ?case by simp
next
  case (Cons pg pgs)
  from clock_loadPage_marked [OF Cons.prems, of pg]
  obtain s1 where s1: "clock_loadPage s pg = Some s1" "clock_inv s1" "clock_marked s1" by blast
  from Cons.IH [OF s1(2,3)] s1(1) show ?case by simp
qed

lemma clock_reachable_marked:
  "\<exists>s. clock_run clock_createFrameList pgs = Some s \<and> clock_inv s \<and> clock_marked s"
  using clock_run_marked [OF clock_inv_init clock_marked_init] .

lemma clock_hit_resident:
  assumes inv: "clock_inv s" and res: "pg \<in> set (clock_resident s)"
  shows "\<exists>r<NUM_FRAMES. page_c (frames s ! r) = pg \<and> valid_c (frames s ! r) \<and>
           clock_loadPage s pg =
             Some (s\<lparr>frames := (frames s)[r := (frames s ! r)\<lparr>reference := True\<rparr>]\<rparr>)"
proof -
  from inv have len: "length (frames s) = NUM_FRAMES" and u: "clock_unique s"
    by (simp_all add: clock_inv_def hand_in_bounds_def)
  from res obtain i where i: "i < NUM_FRAMES" "valid_c (frames s ! i)" "page_c (frames s ! i) = pg"
    by (auto simp: clock_resident_iff [OF len])
  then have "clock_findFrame s pg \<noteq> - 1"
    using clock_findFrame_miss [of s pg i] by auto
  from clock_loadPage_hit [OF inv this]
  obtain r where r: "r < NUM_FRAMES" "page_c (frames s ! r) = pg"
    "clock_loadPage s pg =
       Some (s\<lparr>frames := (frames s)[r := (frames s ! r)\<lparr>reference := True\<rparr>]\<rparr>)"
    by blast
  from u i r(1,2) have "i = r"
    by (auto simp: clock_unique_def)
  with i r show ?thesis by blast
qed


section \<open>The claims on all three policies\<close>

lemma lru_reachable_snapshot:
  "\<exists>s as v. lru_run lru_createFrameList pgs = Some s \<and> list_inv s as \<and>
     lru_snapshot s = Some v \<and> v = map (\<lambda>a. (page (cell s a), True)) as"
  using lru_reachable_inv [of pgs] lru_snapshot_inv by blast

lemma lfu_reachable_snapshot:
  "\<exists>s as v. lfu_run lfu_createFrameList pgs = Some s \<and> list_inv s as \<and>
     lfu_snapshot s = Some v \<and> v = map (\<lambda>a. (page (cell s a), frequency (cell s a), True)) as"
  using lfu_reachable_inv [of pgs] lfu_snapshot_inv by blast

text \<open>
  C1. After every sequence of \<^verbatim>\<open>loadPage\<close> calls from the fresh frame table, under each of
  the three policies, the calls have all returned and at most \<open>NUM_FRAMES\<close> frames are
  occupied: under Clock at most \<open>NUM_FRAMES\<close> slots have \<^verbatim>\<open>valid\<close> set; under LRU and
  LFU the list that \<^verbatim>\<open>printFrameList\<close> walks has at most \<open>NUM_FRAMES\<close> frames, and
  \<^verbatim>\<open>numFrames\<close> is its length.
\<close>

theorem capacity_invariant:
  "(\<exists>s. clock_run clock_createFrameList pgs = Some s \<and> clock_occupied s \<le> NUM_FRAMES) \<and>
   (\<exists>s v. lru_run lru_createFrameList pgs = Some s \<and> lru_snapshot s = Some v \<and>
      length (filter snd v) \<le> NUM_FRAMES \<and> length v \<le> NUM_FRAMES \<and>
      unat (numFrames s) = length v) \<and>
   (\<exists>s v. lfu_run lfu_createFrameList pgs = Some s \<and> lfu_snapshot s = Some v \<and>
      length (filter (\<lambda>(p, f, b). b) v) \<le> NUM_FRAMES \<and> length v \<le> NUM_FRAMES \<and>
      unat (numFrames s) = length v)"
proof (intro conjI)
  from clock_reachable_inv [of pgs]
  obtain s where s: "clock_run clock_createFrameList pgs = Some s" "clock_inv s" by blast
  then have "length (frames s) = NUM_FRAMES"
    by (simp add: clock_inv_def hand_in_bounds_def)
  moreover have "clock_occupied s \<le> length (frames s)"
    by (simp add: clock_occupied_def)
  ultimately show "\<exists>s. clock_run clock_createFrameList pgs = Some s \<and> clock_occupied s \<le> NUM_FRAMES"
    using s(1) by auto
next
  from lru_reachable_snapshot [of pgs]
  obtain s as v where s: "lru_run lru_createFrameList pgs = Some s" "list_inv s as"
    "lru_snapshot s = Some v" "v = map (\<lambda>a. (page (cell s a), True)) as"
    by blast
  note f = snapshot_facts [OF s(2,4)]
  from f(1) have "length (filter snd v) \<le> NUM_FRAMES"
    by (rule order_trans [OF length_filter_le])
  with s f show "\<exists>s v. lru_run lru_createFrameList pgs = Some s \<and> lru_snapshot s = Some v \<and>
      length (filter snd v) \<le> NUM_FRAMES \<and> length v \<le> NUM_FRAMES \<and>
      unat (numFrames s) = length v"
    by blast
next
  from lfu_reachable_snapshot [of pgs]
  obtain s as v where s: "lfu_run lfu_createFrameList pgs = Some s" "list_inv s as"
    "lfu_snapshot s = Some v" "v = map (\<lambda>a. (page (cell s a), frequency (cell s a), True)) as"
    by blast
  note f = snapshot_facts [OF s(2,4)]
  from f(1) have "length (filter (\<lambda>(p, f, b). b) v) \<le> NUM_FRAMES"
    by (rule order_trans [OF length_filter_le])
  with s f show "\<exists>s v. lfu_run lfu_createFrameList pgs = Some s \<and> lfu_snapshot s = Some v \<and>
      length (filter (\<lambda>(p, f, b). b) v) \<le> NUM_FRAMES \<and> length v \<le> NUM_FRAMES \<and>
      unat (numFrames s) = length v"
    by blast
qed

text \<open>Seven calls with six different pages leave four frames occupied.\<close>

theorem capacity_invariant_witness:
  "map_option clock_occupied (clock_run clock_createFrameList [1, 2, 3, 4, 5, 1, 6]) = Some 4 \<and>
   lru_run lru_createFrameList [1, 2, 3, 4, 5, 1, 6] \<bind> lru_snapshot =
     Some [(6, True), (1, True), (5, True), (4, True)] \<and>
   lfu_run lfu_createFrameList [1, 2, 3, 4, 5, 1, 6] \<bind> lfu_snapshot =
     Some [(6, 1, True), (3, 1, True), (2, 1, True), (1, 2, True)] \<and>
   map_option (unat \<circ> numFrames) (lru_run lru_createFrameList [1, 2, 3, 4, 5, 1, 6]) = Some 4 \<and>
   map_option (unat \<circ> numFrames) (lfu_run lfu_createFrameList [1, 2, 3, 4, 5, 1, 6]) = Some 4"
proof -
  have c: "map_option clock_occupied (clock_run clock_createFrameList [1, 2, 3, 4, 5, 1, 6]) = Some 4"
    by code_simp
  have r: "lru_run lru_createFrameList [1, 2, 3, 4, 5, 1, 6] \<bind> lru_snapshot =
     Some [(6, True), (1, True), (5, True), (4, True)]"
    by code_simp
  have f: "lfu_run lfu_createFrameList [1, 2, 3, 4, 5, 1, 6] \<bind> lfu_snapshot =
     Some [(6, 1, True), (3, 1, True), (2, 1, True), (1, 2, True)]"
    by code_simp
  from capacity_invariant [of "[1, 2, 3, 4, 5, 1, 6]"] c r f show ?thesis
    by auto
qed

text \<open>
  C2. After every sequence of \<^verbatim>\<open>loadPage\<close> calls from the fresh frame table, under each of
  the three policies, no page identifier is held by two occupied frames: the pages of the
  occupied Clock slots, and the pages along the LRU and the LFU list, are pairwise distinct.
\<close>

theorem residency_unique:
  "(\<exists>s. clock_run clock_createFrameList pgs = Some s \<and> distinct (clock_resident s)) \<and>
   (\<exists>s v. lru_run lru_createFrameList pgs = Some s \<and> lru_snapshot s = Some v \<and>
      distinct (map fst v)) \<and>
   (\<exists>s v. lfu_run lfu_createFrameList pgs = Some s \<and> lfu_snapshot s = Some v \<and>
      distinct (map fst v))"
proof (intro conjI)
  from clock_reachable_inv [of pgs] clock_unique_distinct
  show "\<exists>s. clock_run clock_createFrameList pgs = Some s \<and> distinct (clock_resident s)"
    by blast
next
  from lru_reachable_snapshot [of pgs]
  obtain s as v where s: "lru_run lru_createFrameList pgs = Some s" "list_inv s as"
    "lru_snapshot s = Some v" "v = map (\<lambda>a. (page (cell s a), True)) as"
    by blast
  from snapshot_facts(2) [OF s(2,4)] s(1,3)
  show "\<exists>s v. lru_run lru_createFrameList pgs = Some s \<and> lru_snapshot s = Some v \<and>
      distinct (map fst v)"
    by blast
next
  from lfu_reachable_snapshot [of pgs]
  obtain s as v where s: "lfu_run lfu_createFrameList pgs = Some s" "list_inv s as"
    "lfu_snapshot s = Some v" "v = map (\<lambda>a. (page (cell s a), frequency (cell s a), True)) as"
    by blast
  from snapshot_facts(2) [OF s(2,4)] s(1,3)
  show "\<exists>s v. lfu_run lfu_createFrameList pgs = Some s \<and> lfu_snapshot s = Some v \<and>
      distinct (map fst v)"
    by blast
qed

text \<open>Repeated loads of the pages 7 and 8 leave one frame for each.\<close>

theorem residency_unique_witness:
  "map_option clock_resident (clock_run clock_createFrameList [7, 7, 8, 7, 9, 8]) = Some [7, 8, 9] \<and>
   lru_run lru_createFrameList [7, 7, 8, 7, 9, 8] \<bind> lru_snapshot =
     Some [(8, True), (9, True), (7, True)] \<and>
   lfu_run lfu_createFrameList [7, 7, 8, 7, 9, 8] \<bind> lfu_snapshot =
     Some [(9, 1, True), (8, 2, True), (7, 3, True)] \<and>
   distinct [7, 8, 9 :: c_int]"
proof -
  have c: "map_option clock_resident (clock_run clock_createFrameList [7, 7, 8, 7, 9, 8]) = Some [7, 8, 9]"
    by code_simp
  have r: "lru_run lru_createFrameList [7, 7, 8, 7, 9, 8] \<bind> lru_snapshot =
     Some [(8, True), (9, True), (7, True)]"
    by code_simp
  have f: "lfu_run lfu_createFrameList [7, 7, 8, 7, 9, 8] \<bind> lfu_snapshot =
     Some [(9, 1, True), (8, 2, True), (7, 3, True)]"
    by code_simp
  from residency_unique [of "[7, 7, 8, 7, 9, 8]"] c r f show ?thesis
    by auto
qed


section \<open>LFU and LRU: victim selection\<close>

text \<open>
  C3. Under LFU, in every reachable state whose list is full, a miss evicts the first frame,
  in head-to-tail order, of minimal frequency: every frame before the victim is strictly
  more frequent, every frame after it is at least as frequent; the new page enters at the
  head with frequency 1 and the other frames keep their order. On the accesses
  1, 2, 3, 4, 5, 1, 2, 1, 3, 4 the list is 4, 3, 2, 1 before the miss on 5 and 5, 3, 2, 1 after it
  (4 is evicted), it is 5 (1), 3 (2), 2 (2), 1 (3) before the last miss on 4 and
  4 (1), 3 (2), 2 (2), 1 (3) after it (5 is evicted).
\<close>

theorem lfu_victim_selection:
  "(\<exists>s v. lfu_run lfu_createFrameList pgs = Some s \<and> lfu_snapshot s = Some v \<and>
      (length v = NUM_FRAMES \<and> pg \<notin> fst ` set v \<longrightarrow>
         (\<exists>s' ys x zs. lfu_loadPage s pg = Some s' \<and> v = ys @ x # zs \<and>
            (\<forall>y\<in>set ys. sint (fst (snd x)) < sint (fst (snd y))) \<and>
            (\<forall>z\<in>set zs. sint (fst (snd x)) \<le> sint (fst (snd z))) \<and>
            lfu_snapshot s' = Some ((pg, 1, True) # ys @ zs)))) \<and>
   lfu_run lfu_createFrameList [1, 2, 3, 4] \<bind> lfu_snapshot =
     Some [(4, 1, True), (3, 1, True), (2, 1, True), (1, 1, True)] \<and>
   lfu_run lfu_createFrameList [1, 2, 3, 4, 5] \<bind> lfu_snapshot =
     Some [(5, 1, True), (3, 1, True), (2, 1, True), (1, 1, True)] \<and>
   lfu_run lfu_createFrameList [1, 2, 3, 4, 5, 1, 2, 1, 3] \<bind> lfu_snapshot =
     Some [(5, 1, True), (3, 2, True), (2, 2, True), (1, 3, True)] \<and>
   lfu_run lfu_createFrameList [1, 2, 3, 4, 5, 1, 2, 1, 3, 4] \<bind> lfu_snapshot =
     Some [(4, 1, True), (3, 2, True), (2, 2, True), (1, 3, True)]"
proof (intro conjI)
  from lfu_reachable_snapshot [of pgs]
  obtain s as v where s: "lfu_run lfu_createFrameList pgs = Some s" "list_inv s as"
    "lfu_snapshot s = Some v"
    by blast
  have "\<exists>s' ys x zs. lfu_loadPage s pg = Some s' \<and> v = ys @ x # zs \<and>
            (\<forall>y\<in>set ys. sint (fst (snd x)) < sint (fst (snd y))) \<and>
            (\<forall>z\<in>set zs. sint (fst (snd x)) \<le> sint (fst (snd z))) \<and>
            lfu_snapshot s' = Some ((pg, 1, True) # ys @ zs)"
    if "length v = NUM_FRAMES" "pg \<notin> fst ` set v"
  proof -
    from lfu_step_miss [OF s(2,3) that(2)]
    obtain s' where s': "lfu_loadPage s pg = Some s'"
      "if length v = NUM_FRAMES then
         \<exists>ys x zs. v = ys @ x # zs \<and>
           (\<forall>y\<in>set ys. sint (fst (snd x)) < sint (fst (snd y))) \<and>
           (\<forall>z\<in>set zs. sint (fst (snd x)) \<le> sint (fst (snd z))) \<and>
           lfu_snapshot s' = Some ((pg, 1, True) # ys @ zs)
       else lfu_snapshot s' = Some ((pg, 1, True) # v)"
      by blast
    from s'(2) that(1) have "\<exists>ys x zs. v = ys @ x # zs \<and>
           (\<forall>y\<in>set ys. sint (fst (snd x)) < sint (fst (snd y))) \<and>
           (\<forall>z\<in>set zs. sint (fst (snd x)) \<le> sint (fst (snd z))) \<and>
           lfu_snapshot s' = Some ((pg, 1, True) # ys @ zs)"
      by (simp only: if_True)
    with s'(1) show ?thesis by blast
  qed
  with s(1,3) show "\<exists>s v. lfu_run lfu_createFrameList pgs = Some s \<and> lfu_snapshot s = Some v \<and>
      (length v = NUM_FRAMES \<and> pg \<notin> fst ` set v \<longrightarrow>
         (\<exists>s' ys x zs. lfu_loadPage s pg = Some s' \<and> v = ys @ x # zs \<and>
            (\<forall>y\<in>set ys. sint (fst (snd x)) < sint (fst (snd y))) \<and>
            (\<forall>z\<in>set zs. sint (fst (snd x)) \<le> sint (fst (snd z))) \<and>
            lfu_snapshot s' = Some ((pg, 1, True) # ys @ zs)))"
    by blast
next
  show "lfu_run lfu_createFrameList [1, 2, 3, 4] \<bind> lfu_snapshot =
     Some [(4, 1, True), (3, 1, True), (2, 1, True), (1, 1, True)]"
    by code_simp
next
  show "lfu_run lfu_createFrameList [1, 2, 3, 4, 5] \<bind> lfu_snapshot =
     Some [(5, 1, True), (3, 1, True), (2, 1, True), (1, 1, True)]"
    by code_simp
next
  show "lfu_run lfu_createFrameList [1, 2, 3, 4, 5, 1, 2, 1, 3] \<bind> lfu_snapshot =
     Some [(5, 1, True), (3, 2, True), (2, 2, True), (1, 3, True)]"
    by code_simp
next
  show "lfu_run lfu_createFrameList [1, 2, 3, 4, 5, 1, 2, 1, 3, 4] \<bind> lfu_snapshot =
     Some [(4, 1, True), (3, 2, True), (2, 2, True), (1, 3, True)]"
    by code_simp
qed

text \<open>A full list whose least frequent frame is the second one: the miss on 9 evicts it.\<close>

theorem lfu_victim_selection_witness:
  "\<exists>s s'. lfu_run lfu_createFrameList [1, 2, 3, 4, 1, 2, 4] = Some s \<and>
     lfu_snapshot s = Some [(4, 2, True), (3, 1, True), (2, 2, True), (1, 2, True)] \<and>
     lfu_loadPage s 9 = Some s' \<and>
     lfu_snapshot s' = Some [(9, 1, True), (4, 2, True), (2, 2, True), (1, 2, True)]"
proof -
  let ?V = "[(4, 2, True), (3, 1, True), (2, 2, True), (1, 2, True)] :: (c_int \<times> c_int \<times> bool) list"
  have run: "lfu_run lfu_createFrameList [1, 2, 3, 4, 1, 2, 4] \<bind> lfu_snapshot = Some ?V"
    by code_simp
  from lfu_victim_selection [of "[1, 2, 3, 4, 1, 2, 4]" 9, THEN conjunct1]
  obtain s v where s: "lfu_run lfu_createFrameList [1, 2, 3, 4, 1, 2, 4] = Some s"
    "lfu_snapshot s = Some v"
    "length v = NUM_FRAMES \<and> 9 \<notin> fst ` set v \<longrightarrow>
       (\<exists>s' ys x zs. lfu_loadPage s 9 = Some s' \<and> v = ys @ x # zs \<and>
          (\<forall>y\<in>set ys. sint (fst (snd x)) < sint (fst (snd y))) \<and>
          (\<forall>z\<in>set zs. sint (fst (snd x)) \<le> sint (fst (snd z))) \<and>
          lfu_snapshot s' = Some ((9, 1, True) # ys @ zs))"
    by blast
  from run s(1,2) have v: "v = ?V" by simp
  have hyp: "length v = NUM_FRAMES \<and> 9 \<notin> fst ` set v"
    unfolding v by simp
  from s(3) hyp have "\<exists>s' ys x zs. lfu_loadPage s 9 = Some s' \<and> v = ys @ x # zs \<and>
          (\<forall>y\<in>set ys. sint (fst (snd x)) < sint (fst (snd y))) \<and>
          (\<forall>z\<in>set zs. sint (fst (snd x)) \<le> sint (fst (snd z))) \<and>
          lfu_snapshot s' = Some ((9, 1, True) # ys @ zs)"
    by (rule mp)
  then obtain s' where s': "lfu_loadPage s 9 = Some s'"
    by (elim exE conjE)
  have "lfu_run lfu_createFrameList [1, 2, 3, 4, 1, 2, 4] \<bind> (\<lambda>s. lfu_loadPage s 9)
      \<bind> lfu_snapshot = Some [(9, 1, True), (4, 2, True), (2, 2, True), (1, 2, True)]"
    by code_simp
  with s(1) s'(1)
  have "lfu_snapshot s' = Some [(9, 1, True), (4, 2, True), (2, 2, True), (1, 2, True)]"
    by simp
  with s(1,2) s'(1) show ?thesis
    unfolding v by (intro exI [of _ s] exI [of _ s'] conjI)
qed


text \<open>
  C4. Under LRU, in every reachable state, a miss puts the new page at the head of the
  list; when the list is full the frame that leaves is the last one, and the other frames
  keep their order. Loading 1, 2, 3, 4 gives the list 4, 3, 2, 1, and loading 5 then gives
  5, 4, 3, 2.
\<close>

theorem lru_victim_is_tail:
  "(\<exists>s v. lru_run lru_createFrameList pgs = Some s \<and> lru_snapshot s = Some v \<and>
      (pg \<notin> fst ` set v \<longrightarrow>
         (\<exists>s'. lru_loadPage s pg = Some s' \<and>
            lru_snapshot s' =
              Some ((pg, True) # (if length v = NUM_FRAMES then butlast v else v))))) \<and>
   lru_run lru_createFrameList [1, 2, 3, 4] \<bind> lru_snapshot =
     Some [(4, True), (3, True), (2, True), (1, True)] \<and>
   lru_run lru_createFrameList [1, 2, 3, 4, 5] \<bind> lru_snapshot =
     Some [(5, True), (4, True), (3, True), (2, True)]"
proof (intro conjI)
  from lru_reachable_snapshot [of pgs]
  obtain s as v where s: "lru_run lru_createFrameList pgs = Some s" "list_inv s as"
    "lru_snapshot s = Some v"
    by blast
  have "\<exists>s'. lru_loadPage s pg = Some s' \<and>
      lru_snapshot s' = Some ((pg, True) # (if length v = NUM_FRAMES then butlast v else v))"
    if "pg \<notin> fst ` set v"
    using lru_step_miss [OF s(2,3) that] by blast
  with s(1,3) show "\<exists>s v. lru_run lru_createFrameList pgs = Some s \<and> lru_snapshot s = Some v \<and>
      (pg \<notin> fst ` set v \<longrightarrow>
         (\<exists>s'. lru_loadPage s pg = Some s' \<and>
            lru_snapshot s' =
              Some ((pg, True) # (if length v = NUM_FRAMES then butlast v else v))))"
    by blast
next
  show "lru_run lru_createFrameList [1, 2, 3, 4] \<bind> lru_snapshot =
     Some [(4, True), (3, True), (2, True), (1, True)]"
    by code_simp
next
  show "lru_run lru_createFrameList [1, 2, 3, 4, 5] \<bind> lru_snapshot =
     Some [(5, True), (4, True), (3, True), (2, True)]"
    by code_simp
qed

text \<open>After 1, 2, 3, 4, 2, 1 the tail is page 3, and the miss on 9 evicts it.\<close>

theorem lru_victim_is_tail_witness:
  "\<exists>s s'. lru_run lru_createFrameList [1, 2, 3, 4, 2, 1] = Some s \<and>
     lru_snapshot s = Some [(1, True), (2, True), (4, True), (3, True)] \<and>
     lru_loadPage s 9 = Some s' \<and>
     lru_snapshot s' = Some [(9, True), (1, True), (2, True), (4, True)]"
proof -
  let ?V = "[(1, True), (2, True), (4, True), (3, True)] :: (c_int \<times> bool) list"
  have run: "lru_run lru_createFrameList [1, 2, 3, 4, 2, 1] \<bind> lru_snapshot = Some ?V"
    by code_simp
  from lru_victim_is_tail [of "[1, 2, 3, 4, 2, 1]" 9, THEN conjunct1]
  obtain s v where s: "lru_run lru_createFrameList [1, 2, 3, 4, 2, 1] = Some s"
    "lru_snapshot s = Some v"
    "9 \<notin> fst ` set v \<longrightarrow>
       (\<exists>s'. lru_loadPage s 9 = Some s' \<and>
          lru_snapshot s' = Some ((9, True) # (if length v = NUM_FRAMES then butlast v else v)))"
    by blast
  from run s(1,2) have v: "v = ?V" by simp
  have hyp: "9 \<notin> fst ` set v"
    unfolding v by simp
  from s(3) hyp have "\<exists>s'. lru_loadPage s 9 = Some s' \<and>
      lru_snapshot s' = Some ((9, True) # (if length v = NUM_FRAMES then butlast v else v))"
    by (rule mp)
  then obtain s' where s': "lru_loadPage s 9 = Some s'"
    "lru_snapshot s' = Some ((9, True) # (if length v = NUM_FRAMES then butlast v else v))"
    by (elim exE conjE)
  from s'(2) have "lru_snapshot s' = Some [(9, True), (1, True), (2, True), (4, True)]"
    unfolding v by simp
  with s(1,2) s'(1) show ?thesis
    unfolding v by (intro exI [of _ s] exI [of _ s'] conjI)
qed

section \<open>LRU: repeated touches\<close>

lemma filter_remove1_other:
  "\<not> P x \<Longrightarrow> filter P (remove1 x xs) = filter P xs"
  by (induction xs) auto

lemma set_Cons_remove1:
  "x \<in> set xs \<Longrightarrow> set (x # remove1 x xs) = set xs"
  by (induction xs) auto

lemma length_Cons_remove1:
  "x \<in> set xs \<Longrightarrow> length (x # remove1 x xs) = length xs"
  by (induction xs) auto

lemma lru_run_replicate:
  "lru_loadPage s' pg = Some s' \<Longrightarrow> lru_run s' (replicate n pg) = Some s'"
  by (induction n) simp_all

text \<open>
  C7. Under LRU, in every reachable state in which page \<open>pg\<close> is resident, any number
  \<open>n + 1\<close> of calls \<^verbatim>\<open>loadPage(pg)\<close> ends in the state that one call gives, and a further
  call leaves that state as it is. In it \<open>pg\<close> is at the head of the list, the frames are
  the same ones, as many, \<^verbatim>\<open>numFrames\<close> is unchanged, and the other pages are in the order
  they had.
\<close>

theorem lru_touch_idempotent:
  "\<exists>s v. lru_run lru_createFrameList pgs = Some s \<and> lru_snapshot s = Some v \<and>
     (pg \<in> fst ` set v \<longrightarrow>
        (\<exists>s' v'. lru_run s (replicate (Suc n) pg) = Some s' \<and> lru_loadPage s pg = Some s' \<and>
           lru_loadPage s' pg = Some s' \<and>
           lru_snapshot s' = Some v' \<and> v' = (pg, True) # remove1 (pg, True) v \<and>
           set v' = set v \<and> length v' = length v \<and> numFrames s' = numFrames s \<and>
           filter (\<lambda>x. fst x \<noteq> pg) v' = filter (\<lambda>x. fst x \<noteq> pg) v))"
proof -
  from lru_reachable_snapshot [of pgs]
  obtain s as v where s: "lru_run lru_createFrameList pgs = Some s" "list_inv s as"
    "lru_snapshot s = Some v" "v = map (\<lambda>a. (page (cell s a), True)) as"
    by blast
  have "\<exists>s' v'. lru_run s (replicate (Suc n) pg) = Some s' \<and> lru_loadPage s pg = Some s' \<and>
           lru_loadPage s' pg = Some s' \<and>
           lru_snapshot s' = Some v' \<and> v' = (pg, True) # remove1 (pg, True) v \<and>
           set v' = set v \<and> length v' = length v \<and> numFrames s' = numFrames s \<and>
           filter (\<lambda>x. fst x \<noteq> pg) v' = filter (\<lambda>x. fst x \<noteq> pg) v"
    if hit: "pg \<in> fst ` set v"
  proof -
    from lru_step_hit [OF s(2,3) hit]
    obtain s' where s': "lru_loadPage s pg = Some s'"
      "lru_snapshot s' = Some ((pg, True) # remove1 (pg, True) v)"
      "numFrames s' = numFrames s" "lru_loadPage s' pg = Some s'"
      by blast
    let ?v' = "(pg, True) # remove1 (pg, True) v"
    from hit s(4) have mem: "(pg, True) \<in> set v" by auto
    have "lru_run s (replicate (Suc n) pg) = Some s'"
      using s'(1) lru_run_replicate [OF s'(4), of n] by simp
    moreover from mem have "set ?v' = set v"
      by (rule set_Cons_remove1)
    moreover from mem have "length ?v' = length v"
      by (rule length_Cons_remove1)
    moreover have "filter (\<lambda>x. fst x \<noteq> pg) ?v' = filter (\<lambda>x. fst x \<noteq> pg) v"
      by (simp add: filter_remove1_other)
    ultimately show ?thesis using s' by blast
  qed
  with s(1,3) show ?thesis by blast
qed

text \<open>Three touches of page 2 in the list 4, 3, 2, 1 give 2, 4, 3, 1, as one touch does.\<close>

theorem lru_touch_idempotent_witness:
  "\<exists>s s'. lru_run lru_createFrameList [1, 2, 3, 4] = Some s \<and>
     lru_snapshot s = Some [(4, True), (3, True), (2, True), (1, True)] \<and>
     lru_run s [2, 2, 2] = Some s' \<and> lru_loadPage s 2 = Some s' \<and>
     lru_snapshot s' = Some [(2, True), (4, True), (3, True), (1, True)] \<and>
     numFrames s' = numFrames s"
proof -
  let ?V = "[(4, True), (3, True), (2, True), (1, True)] :: (c_int \<times> bool) list"
  have run: "lru_run lru_createFrameList [1, 2, 3, 4] \<bind> lru_snapshot = Some ?V"
    by code_simp
  from lru_touch_idempotent [of "[1, 2, 3, 4]" 2 2]
  obtain s v where s: "lru_run lru_createFrameList [1, 2, 3, 4] = Some s"
    "lru_snapshot s = Some v"
    "2 \<in> fst ` set v \<longrightarrow>
        (\<exists>s' v'. lru_run s (replicate (Suc 2) 2) = Some s' \<and> lru_loadPage s 2 = Some s' \<and>
           lru_loadPage s' 2 = Some s' \<and>
           lru_snapshot s' = Some v' \<and> v' = (2, True) # remove1 (2, True) v \<and>
           set v' = set v \<and> length v' = length v \<and> numFrames s' = numFrames s \<and>
           filter (\<lambda>x. fst x \<noteq> 2) v' = filter (\<lambda>x. fst x \<noteq> 2) v)"
    by blast
  from run s(1,2) have v: "v = ?V" by simp
  have hyp: "2 \<in> fst ` set v"
    unfolding v by simp
  from s(3) hyp have "\<exists>s' v'. lru_run s (replicate (Suc 2) 2) = Some s' \<and> lru_loadPage s 2 = Some s' \<and>
           lru_loadPage s' 2 = Some s' \<and>
           lru_snapshot s' = Some v' \<and> v' = (2, True) # remove1 (2, True) v \<and>
           set v' = set v \<and> length v' = length v \<and> numFrames s' = numFrames s \<and>
           filter (\<lambda>x. fst x \<noteq> 2) v' = filter (\<lambda>x. fst x \<noteq> 2) v"
    by (rule mp)
  then obtain s' where s': "lru_run s (replicate (Suc 2) 2) = Some s'" "lru_loadPage s 2 = Some s'"
    "lru_snapshot s' = Some ((2, True) # remove1 (2, True) v)" "numFrames s' = numFrames s"
    by (elim exE conjE) simp
  from s'(1) have r: "lru_run s [2, 2, 2] = Some s'"
    by (simp add: numeral_2_eq_2)
  from s'(3) have "lru_snapshot s' = Some [(2, True), (4, True), (3, True), (1, True)]"
    unfolding v by simp
  with s(1,2) r s'(2,4) show ?thesis
    unfolding v by (intro exI [of _ s] exI [of _ s'] conjI)
qed


section \<open>Hits\<close>

lemma same_payload_page_valid:
  "same_payload h h' \<Longrightarrow>
   map_option (\<lambda>F. (page F, valid F)) (h' a) = map_option (\<lambda>F. (page F, valid F)) (h a)"
  by (cases "h a"; cases "h' a") (auto simp: same_payload_def payload_def dest: spec [of _ a])

text \<open>
  C8. In every reachable state, a call \<^verbatim>\<open>loadPage(pg)\<close> with \<open>pg\<close> resident admits and evicts
  nothing. Under Clock the result is the same state with the reference bit set in the one
  occupied slot that holds \<open>pg\<close>. Under LRU no cell is allocated or freed, \<^verbatim>\<open>numFrames\<close> is
  unchanged, every cell keeps its page and its \<^verbatim>\<open>valid\<close> flag, and the list is the old one
  with the frame of \<open>pg\<close> moved to the head. Under LFU the result is the same state with the
  frequency of the one cell that holds \<open>pg\<close> incremented.
\<close>

theorem hit_changes_only_metadata:
  "(\<exists>s. clock_run clock_createFrameList pgs = Some s \<and>
      (pg \<in> set (clock_resident s) \<longrightarrow>
         (\<exists>r<NUM_FRAMES. page_c (frames s ! r) = pg \<and> valid_c (frames s ! r) \<and>
            clock_loadPage s pg =
              Some (s\<lparr>frames := (frames s)[r := (frames s ! r)\<lparr>reference := True\<rparr>]\<rparr>)))) \<and>
   (\<exists>s v. lru_run lru_createFrameList pgs = Some s \<and> lru_snapshot s = Some v \<and>
      (pg \<in> fst ` set v \<longrightarrow>
         (\<exists>s'. lru_loadPage s pg = Some s' \<and> numFrames s' = numFrames s \<and> brk s' = brk s \<and>
            (\<forall>a. map_option (\<lambda>F. (page F, valid F)) (heap s' a) =
                 map_option (\<lambda>F. (page F, valid F)) (heap s a)) \<and>
            lru_snapshot s' = Some ((pg, True) # remove1 (pg, True) v)))) \<and>
   (\<exists>s v. lfu_run lfu_createFrameList pgs = Some s \<and> lfu_snapshot s = Some v \<and>
      (pg \<in> fst ` set v \<longrightarrow>
         (\<exists>t T. heap s t = Some T \<and> page T = pg \<and>
            lfu_loadPage s pg =
              Some (s\<lparr>heap := (heap s)(t \<mapsto> T\<lparr>frequency := frequency T + 1\<rparr>)\<rparr>) \<and>
            lfu_snapshot (s\<lparr>heap := (heap s)(t \<mapsto> T\<lparr>frequency := frequency T + 1\<rparr>)\<rparr>) =
              Some (map (\<lambda>(p, f, b). if p = pg then (p, f + 1, b) else (p, f, b)) v))))"
proof (intro conjI)
  from clock_reachable_inv [of pgs]
  obtain s where s: "clock_run clock_createFrameList pgs = Some s" "clock_inv s" by blast
  from clock_hit_resident [OF s(2), of pg] s(1)
  show "\<exists>s. clock_run clock_createFrameList pgs = Some s \<and>
      (pg \<in> set (clock_resident s) \<longrightarrow>
         (\<exists>r<NUM_FRAMES. page_c (frames s ! r) = pg \<and> valid_c (frames s ! r) \<and>
            clock_loadPage s pg =
              Some (s\<lparr>frames := (frames s)[r := (frames s ! r)\<lparr>reference := True\<rparr>]\<rparr>)))"
    by blast
next
  from lru_reachable_snapshot [of pgs]
  obtain s as v where s: "lru_run lru_createFrameList pgs = Some s" "list_inv s as"
    "lru_snapshot s = Some v"
    by blast
  have "\<exists>s'. lru_loadPage s pg = Some s' \<and> numFrames s' = numFrames s \<and> brk s' = brk s \<and>
            (\<forall>a. map_option (\<lambda>F. (page F, valid F)) (heap s' a) =
                 map_option (\<lambda>F. (page F, valid F)) (heap s a)) \<and>
            lru_snapshot s' = Some ((pg, True) # remove1 (pg, True) v)"
    if "pg \<in> fst ` set v"
  proof -
    from lru_step_hit [OF s(2,3) that]
    obtain s' where s': "lru_loadPage s pg = Some s'"
      "lru_snapshot s' = Some ((pg, True) # remove1 (pg, True) v)"
      "numFrames s' = numFrames s" "brk s' = brk s" "same_payload (heap s) (heap s')"
      by blast
    from same_payload_page_valid [OF s'(5)] s'(1-4) show ?thesis by blast
  qed
  with s(1,3) show "\<exists>s v. lru_run lru_createFrameList pgs = Some s \<and> lru_snapshot s = Some v \<and>
      (pg \<in> fst ` set v \<longrightarrow>
         (\<exists>s'. lru_loadPage s pg = Some s' \<and> numFrames s' = numFrames s \<and> brk s' = brk s \<and>
            (\<forall>a. map_option (\<lambda>F. (page F, valid F)) (heap s' a) =
                 map_option (\<lambda>F. (page F, valid F)) (heap s a)) \<and>
            lru_snapshot s' = Some ((pg, True) # remove1 (pg, True) v)))"
    by blast
next
  from lfu_reachable_snapshot [of pgs]
  obtain s as v where s: "lfu_run lfu_createFrameList pgs = Some s" "list_inv s as"
    "lfu_snapshot s = Some v"
    by blast
  have "\<exists>t T. heap s t = Some T \<and> page T = pg \<and>
            lfu_loadPage s pg =
              Some (s\<lparr>heap := (heap s)(t \<mapsto> T\<lparr>frequency := frequency T + 1\<rparr>)\<rparr>) \<and>
            lfu_snapshot (s\<lparr>heap := (heap s)(t \<mapsto> T\<lparr>frequency := frequency T + 1\<rparr>)\<rparr>) =
              Some (map (\<lambda>(p, f, b). if p = pg then (p, f + 1, b) else (p, f, b)) v)"
    if "pg \<in> fst ` set v"
    using lfu_step_hit [OF s(2,3) that] by blast
  with s(1,3) show "\<exists>s v. lfu_run lfu_createFrameList pgs = Some s \<and> lfu_snapshot s = Some v \<and>
      (pg \<in> fst ` set v \<longrightarrow>
         (\<exists>t T. heap s t = Some T \<and> page T = pg \<and>
            lfu_loadPage s pg =
              Some (s\<lparr>heap := (heap s)(t \<mapsto> T\<lparr>frequency := frequency T + 1\<rparr>)\<rparr>) \<and>
            lfu_snapshot (s\<lparr>heap := (heap s)(t \<mapsto> T\<lparr>frequency := frequency T + 1\<rparr>)\<rparr>) =
              Some (map (\<lambda>(p, f, b). if p = pg then (p, f + 1, b) else (p, f, b)) v)))"
    by blast
qed


text \<open>A hit on page 2 after the pages 1, 2, 3, 4, 5 were loaded.\<close>

theorem hit_changes_only_metadata_witness:
  "(\<exists>s r. clock_run clock_createFrameList [1, 2, 3, 4, 5] = Some s \<and>
      frames s = [\<lparr>page_c = 5, valid_c = True, reference = True\<rparr>,
                  \<lparr>page_c = 2, valid_c = True, reference = False\<rparr>,
                  \<lparr>page_c = 3, valid_c = True, reference = False\<rparr>,
                  \<lparr>page_c = 4, valid_c = True, reference = False\<rparr>] \<and>
      r < NUM_FRAMES \<and> page_c (frames s ! r) = 2 \<and>
      clock_loadPage s 2 =
        Some (s\<lparr>frames := (frames s)[r := (frames s ! r)\<lparr>reference := True\<rparr>]\<rparr>)) \<and>
   (\<exists>s s'. lru_run lru_createFrameList [1, 2, 3, 4, 5] = Some s \<and>
      lru_snapshot s = Some [(5, True), (4, True), (3, True), (2, True)] \<and>
      lru_loadPage s 2 = Some s' \<and> numFrames s' = numFrames s \<and> brk s' = brk s \<and>
      lru_snapshot s' = Some [(2, True), (5, True), (4, True), (3, True)]) \<and>
   (\<exists>s s'. lfu_run lfu_createFrameList [1, 2, 3, 4, 5] = Some s \<and>
      lfu_snapshot s = Some [(5, 1, True), (3, 1, True), (2, 1, True), (1, 1, True)] \<and>
      lfu_loadPage s 2 = Some s' \<and>
      lfu_snapshot s' = Some [(5, 1, True), (3, 1, True), (2, 2, True), (1, 1, True)])"
proof (intro conjI)
  let ?F = "[\<lparr>page_c = 5, valid_c = True, reference = True\<rparr>,
             \<lparr>page_c = 2, valid_c = True, reference = False\<rparr>,
             \<lparr>page_c = 3, valid_c = True, reference = False\<rparr>,
             \<lparr>page_c = 4, valid_c = True, reference = False\<rparr>]"
  have run: "map_option frames (clock_run clock_createFrameList [1, 2, 3, 4, 5]) = Some ?F"
    by code_simp
  from hit_changes_only_metadata [of "[1, 2, 3, 4, 5]" 2, THEN conjunct1]
  obtain s where s: "clock_run clock_createFrameList [1, 2, 3, 4, 5] = Some s"
    "2 \<in> set (clock_resident s) \<longrightarrow>
       (\<exists>r<NUM_FRAMES. page_c (frames s ! r) = 2 \<and> valid_c (frames s ! r) \<and>
          clock_loadPage s 2 =
            Some (s\<lparr>frames := (frames s)[r := (frames s ! r)\<lparr>reference := True\<rparr>]\<rparr>))"
    by blast
  from run s(1) have f: "frames s = ?F" by simp
  then have hyp: "2 \<in> set (clock_resident s)"
    by (simp add: clock_resident_def)
  from s(2) hyp have "\<exists>r<NUM_FRAMES. page_c (frames s ! r) = 2 \<and> valid_c (frames s ! r) \<and>
      clock_loadPage s 2 =
        Some (s\<lparr>frames := (frames s)[r := (frames s ! r)\<lparr>reference := True\<rparr>]\<rparr>)"
    by (rule mp)
  then obtain r where "r < NUM_FRAMES" "page_c (frames s ! r) = 2"
    "clock_loadPage s 2 =
       Some (s\<lparr>frames := (frames s)[r := (frames s ! r)\<lparr>reference := True\<rparr>]\<rparr>)"
    by (elim exE conjE)
  with s(1) f show "\<exists>s r. clock_run clock_createFrameList [1, 2, 3, 4, 5] = Some s \<and>
      frames s = ?F \<and> r < NUM_FRAMES \<and> page_c (frames s ! r) = 2 \<and>
      clock_loadPage s 2 =
        Some (s\<lparr>frames := (frames s)[r := (frames s ! r)\<lparr>reference := True\<rparr>]\<rparr>)"
    by (intro exI [of _ s] exI [of _ r] conjI)
next
  let ?V = "[(5, True), (4, True), (3, True), (2, True)] :: (c_int \<times> bool) list"
  have run: "lru_run lru_createFrameList [1, 2, 3, 4, 5] \<bind> lru_snapshot = Some ?V"
    by code_simp
  from hit_changes_only_metadata [of "[1, 2, 3, 4, 5]" 2, THEN conjunct2, THEN conjunct1]
  obtain s v where s: "lru_run lru_createFrameList [1, 2, 3, 4, 5] = Some s"
    "lru_snapshot s = Some v"
    "2 \<in> fst ` set v \<longrightarrow>
       (\<exists>s'. lru_loadPage s 2 = Some s' \<and> numFrames s' = numFrames s \<and> brk s' = brk s \<and>
          (\<forall>a. map_option (\<lambda>F. (page F, valid F)) (heap s' a) =
               map_option (\<lambda>F. (page F, valid F)) (heap s a)) \<and>
          lru_snapshot s' = Some ((2, True) # remove1 (2, True) v))"
    by blast
  from run s(1,2) have v: "v = ?V" by simp
  have hyp: "2 \<in> fst ` set v"
    unfolding v by simp
  from s(3) hyp have "\<exists>s'. lru_loadPage s 2 = Some s' \<and> numFrames s' = numFrames s \<and>
      brk s' = brk s \<and>
      (\<forall>a. map_option (\<lambda>F. (page F, valid F)) (heap s' a) =
           map_option (\<lambda>F. (page F, valid F)) (heap s a)) \<and>
      lru_snapshot s' = Some ((2, True) # remove1 (2, True) v)"
    by (rule mp)
  then obtain s' where s': "lru_loadPage s 2 = Some s'" "numFrames s' = numFrames s"
    "brk s' = brk s" "lru_snapshot s' = Some ((2, True) # remove1 (2, True) v)"
    by (elim exE conjE)
  from s'(4) have "lru_snapshot s' = Some [(2, True), (5, True), (4, True), (3, True)]"
    unfolding v by simp
  with s(1,2) s'(1-3) show "\<exists>s s'. lru_run lru_createFrameList [1, 2, 3, 4, 5] = Some s \<and>
      lru_snapshot s = Some ?V \<and>
      lru_loadPage s 2 = Some s' \<and> numFrames s' = numFrames s \<and> brk s' = brk s \<and>
      lru_snapshot s' = Some [(2, True), (5, True), (4, True), (3, True)]"
    unfolding v by (intro exI [of _ s] exI [of _ s'] conjI)
next
  let ?V = "[(5, 1, True), (3, 1, True), (2, 1, True), (1, 1, True)] :: (c_int \<times> c_int \<times> bool) list"
  have run: "lfu_run lfu_createFrameList [1, 2, 3, 4, 5] \<bind> lfu_snapshot = Some ?V"
    by code_simp
  from hit_changes_only_metadata [of "[1, 2, 3, 4, 5]" 2, THEN conjunct2, THEN conjunct2]
  obtain s v where s: "lfu_run lfu_createFrameList [1, 2, 3, 4, 5] = Some s"
    "lfu_snapshot s = Some v"
    "2 \<in> fst ` set v \<longrightarrow>
       (\<exists>t T. heap s t = Some T \<and> page T = 2 \<and>
          lfu_loadPage s 2 =
            Some (s\<lparr>heap := (heap s)(t \<mapsto> T\<lparr>frequency := frequency T + 1\<rparr>)\<rparr>) \<and>
          lfu_snapshot (s\<lparr>heap := (heap s)(t \<mapsto> T\<lparr>frequency := frequency T + 1\<rparr>)\<rparr>) =
            Some (map (\<lambda>(p, f, b). if p = 2 then (p, f + 1, b) else (p, f, b)) v))"
    by blast
  from run s(1,2) have v: "v = ?V" by simp
  have hyp: "2 \<in> fst ` set v"
    unfolding v by simp
  from s(3) hyp have "\<exists>t T. heap s t = Some T \<and> page T = 2 \<and>
      lfu_loadPage s 2 =
        Some (s\<lparr>heap := (heap s)(t \<mapsto> T\<lparr>frequency := frequency T + 1\<rparr>)\<rparr>) \<and>
      lfu_snapshot (s\<lparr>heap := (heap s)(t \<mapsto> T\<lparr>frequency := frequency T + 1\<rparr>)\<rparr>) =
        Some (map (\<lambda>(p, f, b). if p = 2 then (p, f + 1, b) else (p, f, b)) v)"
    by (rule mp)
  then obtain s' where s': "lfu_loadPage s 2 = Some s'"
    "lfu_snapshot s' = Some (map (\<lambda>(p, f, b). if p = 2 then (p, f + 1, b) else (p, f, b)) v)"
    by (elim exE conjE)
  from s'(2) have "lfu_snapshot s' = Some [(5, 1, True), (3, 1, True), (2, 2, True), (1, 1, True)]"
    unfolding v by simp
  with s(1,2) s'(1) show "\<exists>s s'. lfu_run lfu_createFrameList [1, 2, 3, 4, 5] = Some s \<and>
      lfu_snapshot s = Some ?V \<and> lfu_loadPage s 2 = Some s' \<and>
      lfu_snapshot s' = Some [(5, 1, True), (3, 1, True), (2, 2, True), (1, 1, True)]"
    unfolding v by (intro exI [of _ s] exI [of _ s'] conjI)
qed

section \<open>Page identifiers are not validated\<close>

text \<open>
  C9 as stated fails: \<^verbatim>\<open>loadPage\<close> returns \<^verbatim>\<open>void\<close> and checks nothing. On the fresh frame
  table, \<^verbatim>\<open>loadPage(-1)\<close> under LRU and LFU admits a frame for page \<open>-1\<close>, so the state
  changes, and \<^verbatim>\<open>loadPage(-7)\<close> under Clock claims slot 0 for page \<open>-7\<close>.
\<close>

theorem negative_page_is_not_rejected:
  "lru_snapshot lru_createFrameList = Some [] \<and>
   lru_loadPage lru_createFrameList (- 1) \<bind> lru_snapshot = Some [(- 1, True)] \<and>
   lru_loadPage lru_createFrameList (- 1) \<noteq> Some lru_createFrameList \<and>
   lfu_loadPage lfu_createFrameList (- 1) \<bind> lfu_snapshot = Some [(- 1, 1, True)] \<and>
   map_option clock_resident (clock_loadPage clock_createFrameList (- 7)) = Some [- 7]"
proof -
  have a: "lru_snapshot lru_createFrameList = Some []"
    by code_simp
  have b: "lru_loadPage lru_createFrameList (- 1) \<bind> lru_snapshot = Some [(- 1, True)]"
    by code_simp
  have c: "lfu_loadPage lfu_createFrameList (- 1) \<bind> lfu_snapshot = Some [(- 1, 1, True)]"
    by code_simp
  have d: "map_option clock_resident (clock_loadPage clock_createFrameList (- 7)) = Some [- 7]"
    by code_simp
  from a b have "lru_loadPage lru_createFrameList (- 1) \<noteq> Some lru_createFrameList"
    by auto
  with a b c d show ?thesis by blast
qed

text \<open>
  C9, amended. In every reachable state \<^verbatim>\<open>loadPage\<close> accepts every page identifier,
  negative ones included, and reports nothing: under LRU the call returns with the
  identifier at the head of the list, under LFU it returns with the identifier resident,
  \<open>-1\<close> included in both; under Clock it returns, with the identifier resident when it is
  not \<open>-1\<close>.
\<close>

theorem every_page_id_is_admitted:
  "(\<exists>s. clock_run clock_createFrameList pgs = Some s \<and>
      (\<exists>s'. clock_loadPage s pg = Some s' \<and> (pg \<noteq> - 1 \<longrightarrow> pg \<in> set (clock_resident s')))) \<and>
   (\<exists>s. lru_run lru_createFrameList pgs = Some s \<and>
      (\<exists>s' v'. lru_loadPage s pg = Some s' \<and> lru_snapshot s' = Some ((pg, True) # v'))) \<and>
   (\<exists>s. lfu_run lfu_createFrameList pgs = Some s \<and>
      (\<exists>s' v'. lfu_loadPage s pg = Some s' \<and> lfu_snapshot s' = Some v' \<and> pg \<in> fst ` set v'))"
proof (intro conjI)
  from clock_reachable_marked [of pgs]
  obtain s where s: "clock_run clock_createFrameList pgs = Some s" "clock_inv s" "clock_marked s"
    by blast
  from clock_loadPage_marked [OF s(2,3), of pg] s(1)
  show "\<exists>s. clock_run clock_createFrameList pgs = Some s \<and>
      (\<exists>s'. clock_loadPage s pg = Some s' \<and> (pg \<noteq> - 1 \<longrightarrow> pg \<in> set (clock_resident s')))"
    by blast
next
  from lru_reachable_snapshot [of pgs]
  obtain s as v where s: "lru_run lru_createFrameList pgs = Some s" "list_inv s as"
    "lru_snapshot s = Some v"
    by blast
  have "\<exists>s' v'. lru_loadPage s pg = Some s' \<and> lru_snapshot s' = Some ((pg, True) # v')"
  proof (cases "pg \<in> fst ` set v")
    case True
    from lru_step_hit [OF s(2,3) True] show ?thesis by blast
  next
    case False
    from lru_step_miss [OF s(2,3) False] show ?thesis by blast
  qed
  with s(1) show "\<exists>s. lru_run lru_createFrameList pgs = Some s \<and>
      (\<exists>s' v'. lru_loadPage s pg = Some s' \<and> lru_snapshot s' = Some ((pg, True) # v'))"
    by blast
next
  from lfu_reachable_snapshot [of pgs]
  obtain s as v where s: "lfu_run lfu_createFrameList pgs = Some s" "list_inv s as"
    "lfu_snapshot s = Some v"
    by blast
  have "\<exists>s' v'. lfu_loadPage s pg = Some s' \<and> lfu_snapshot s' = Some v' \<and> pg \<in> fst ` set v'"
  proof (cases "pg \<in> fst ` set v")
    case True
    from lfu_step_hit [OF s(2,3) True]
    obtain s' where s': "lfu_loadPage s pg = Some s'"
      "lfu_snapshot s' = Some (map (\<lambda>(p, f, b). if p = pg then (p, f + 1, b) else (p, f, b)) v)"
      by blast
    from True have "pg \<in> fst ` set (map (\<lambda>(p, f, b). if p = pg then (p, f + 1, b) else (p, f, b)) v)"
      by (force simp: image_iff)
    with s' show ?thesis by blast
  next
    case False
    from lfu_step_miss [OF s(2,3) False]
    obtain s' where s': "lfu_loadPage s pg = Some s'"
      "if length v = NUM_FRAMES then
         \<exists>ys x zs. v = ys @ x # zs \<and>
           (\<forall>y\<in>set ys. sint (fst (snd x)) < sint (fst (snd y))) \<and>
           (\<forall>z\<in>set zs. sint (fst (snd x)) \<le> sint (fst (snd z))) \<and>
           lfu_snapshot s' = Some ((pg, 1, True) # ys @ zs)
       else lfu_snapshot s' = Some ((pg, 1, True) # v)"
      by blast
    from s'(2) have "\<exists>w. lfu_snapshot s' = Some ((pg, 1, True) # w)"
      by (cases "length v = NUM_FRAMES") auto
    then obtain w where "lfu_snapshot s' = Some ((pg, 1, True) # w)" ..
    with s'(1) show ?thesis by force
  qed
  with s(1) show "\<exists>s. lfu_run lfu_createFrameList pgs = Some s \<and>
      (\<exists>s' v'. lfu_loadPage s pg = Some s' \<and> lfu_snapshot s' = Some v' \<and> pg \<in> fst ` set v')"
    by blast
qed

text \<open>The negative identifier \<open>-5\<close> after the pages 1 and 2.\<close>

theorem every_page_id_is_admitted_witness:
  "map_option clock_resident (clock_run clock_createFrameList [1, 2] \<bind> (\<lambda>s. clock_loadPage s (- 5)))
     = Some [1, 2, - 5] \<and>
   lru_run lru_createFrameList [1, 2] \<bind> (\<lambda>s. lru_loadPage s (- 5)) \<bind> lru_snapshot
     = Some [(- 5, True), (2, True), (1, True)] \<and>
   lfu_run lfu_createFrameList [1, 2] \<bind> (\<lambda>s. lfu_loadPage s (- 5)) \<bind> lfu_snapshot
     = Some [(- 5, 1, True), (2, 1, True), (1, 1, True)] \<and>
   sint (- 5 :: c_int) < 0"
proof -
  have c: "map_option clock_resident
      (clock_run clock_createFrameList [1, 2] \<bind> (\<lambda>s. clock_loadPage s (- 5))) = Some [1, 2, - 5]"
    by code_simp
  have r: "lru_run lru_createFrameList [1, 2] \<bind> (\<lambda>s. lru_loadPage s (- 5)) \<bind> lru_snapshot
     = Some [(- 5, True), (2, True), (1, True)]"
    by code_simp
  have f: "lfu_run lfu_createFrameList [1, 2] \<bind> (\<lambda>s. lfu_loadPage s (- 5)) \<bind> lfu_snapshot
     = Some [(- 5, 1, True), (2, 1, True), (1, 1, True)]"
    by code_simp
  have n: "sint (- 5 :: c_int) < 0" by simp
  from every_page_id_is_admitted [of "[1, 2]" "- 5"] c r f n show ?thesis
    by blast
qed

end
